theory Spec2Isabelle
  imports Main "HOL-Library.Word" "HOL-Library.AList"
begin

unbundle bit_operations_syntax

section \<open>The VFS broker of HelenOS: data model of \<^verbatim>\<open>uspace/srv/vfs/vfs_ops.c\<close>\<close>

text \<open>
  The development embeds the request handlers of \<^verbatim>\<open>vfs_ops.c\<close>. Every handler runs
  to completion on one fibril here: the namespace rwlock, the per-file mutex and the
  per-node contents rwlock are taken and released inside a handler and are therefore not
  part of the state. A handler returns \<open>None\<close> where the C code runs into a failed
  \<^verbatim>\<open>assert\<close> or into undefined behaviour (an out-of-bounds read, a dangling pointer).
\<close>

subsection \<open>Scalars\<close>

text \<open>\<^verbatim>\<open>aoff64_t\<close> is \<^verbatim>\<open>uint64_t\<close>, \<^verbatim>\<open>off64_t\<close> is \<^verbatim>\<open>int64_t\<close> (the same 64 bits read with
  \<open>sint\<close>); \<^verbatim>\<open>sysarg_t\<close> is taken at 64 bits; \<^verbatim>\<open>int\<close> flag words have 32 bits.\<close>

type_synonym aoff64 = "64 word"
type_synonym off64 = "64 word"
type_synonym sysarg = "64 word"
type_synonym cint = "32 word"

datatype errno =
  EOK | ENOENT | EBUSY | ENOMEM | EINVAL | EPERM | EBADF | EEXIST | ENOTSUP | EIO
  | EOVERFLOW | ENOTDIR | EISDIR | EMFILE

text \<open>The \<^verbatim>\<open>async_answer_N(rid, rc, ...)\<close> a handler sends to its client.\<close>

datatype answer =
  Answer0 errno
  | Answer1 errno sysarg
  | Answer2 errno sysarg sysarg

fun retval :: "answer \<Rightarrow> errno" where
  "retval (Answer0 rc) = rc"
| "retval (Answer1 rc _) = rc"
| "retval (Answer2 rc _ _) = rc"

text \<open>Modelled from the spec: \<^verbatim>\<open>LOWER32\<close>, \<^verbatim>\<open>UPPER32\<close> and \<^verbatim>\<open>MERGE_LOUP32\<close> of
  \<^verbatim>\<open>macros.h\<close>, which is not among the sources: ``64-bit integers on a 32-bit argument
  channel are split low-word/high-word; reconstruction is little-endian on word pairs''.\<close>

definition LOWER32 :: "64 word \<Rightarrow> sysarg" where
  "LOWER32 x = x AND 0xffffffff"

definition UPPER32 :: "64 word \<Rightarrow> sysarg" where
  "UPPER32 x = drop_bit 32 x AND 0xffffffff"

definition MERGE_LOUP32 :: "sysarg \<Rightarrow> sysarg \<Rightarrow> 64 word" where
  "MERGE_LOUP32 lo up = (lo AND 0xffffffff) OR push_bit 32 (up AND 0xffffffff)"

text \<open>Modelled from the spec: \<^verbatim>\<open>OFF64_MAX\<close>, ``the signed-64-bit maximum''.\<close>

definition OFF64_MAX :: "64 word" where
  "OFF64_MAX = 0x7fffffffffffffff"

text \<open>The \<^verbatim>\<open>whence\<close> argument of a seek is an \<^verbatim>\<open>int\<close> that the handler only inspects
  through a \<^verbatim>\<open>switch\<close> with three case labels. The numeric values of the labels live in
  a header outside the sources, so the argument is represented by the label it matches.\<close>

datatype whence = SEEK_SET | SEEK_CUR | SEEK_END | SEEK_OTHER

subsection \<open>Triplets, nodes, open files\<close>

record vfs_triplet =
  fs_handle :: int
  service_id :: nat
  index :: nat

datatype vfs_node_type = VFS_NODE_UNKNOWN | VFS_NODE_FILE | VFS_NODE_DIRECTORY

text \<open>A \<^verbatim>\<open>vfs_node_t\<close> starts with its triplet; the node cache (a hash table in C) interns
  nodes by triplet, so the cache is an association list keyed by triplets and a non-null
  \<^verbatim>\<open>vfs_node_t *\<close> is the triplet the node is cached under.\<close>

record vfs_node =
  refcnt :: nat
  node_type :: vfs_node_type
  node_size :: aoff64

record vfs_lookup_res =
  triplet :: vfs_triplet
  lr_size :: aoff64
  lr_type :: vfs_node_type

text \<open>A \<^verbatim>\<open>vfs_file_t\<close>. Two descriptor slots may hold the same \<^verbatim>\<open>vfs_file_t *\<close> after a
  \<^verbatim>\<open>dup\<close>, so open files live in a store and the descriptor table maps slots to
  addresses.\<close>

record vfs_file =
  node :: "vfs_triplet option"
  permissions :: cint
  open_read :: bool
  open_write :: bool
  append_flag :: bool
  pos :: aoff64
  file_refcnt :: nat

subsection \<open>Requests to the file system servers\<close>

text \<open>The file system servers are outside the broker. Every request the broker sends
  (directly, or through \<^verbatim>\<open>vfs_lookup_internal\<close>, \<^verbatim>\<open>vfs_link_internal\<close> and
  \<^verbatim>\<open>vfs_open_node_remote\<close>, whose files are not among the sources) is recorded in a
  trace, and what the servers answer is left to an environment: a transition function
  on an arbitrary server state \<open>'b\<close>.\<close>

datatype out_request =
  OUT_LOOKUP "vfs_triplet option" string cint
  | OUT_LINK vfs_triplet string vfs_triplet
  | OUT_OPEN_NODE vfs_triplet
  | OUT_READ vfs_triplet aoff64
  | OUT_WRITE vfs_triplet aoff64
  | OUT_UNMOUNT int nat nat
  | OUT_UNMOUNTED int nat
  | OUT_DESTROY vfs_triplet
  | OUT_SYNC vfs_triplet
  | OUT_TRUNCATE vfs_triplet aoff64
  | OUT_STAT vfs_triplet

record fs_reply =
  rc :: errno
  lres :: vfs_lookup_res
  arg1 :: sysarg
  arg2 :: sysarg
  arg3 :: sysarg

text \<open>The constants of \<^verbatim>\<open>ipc/vfs.h\<close> and \<^verbatim>\<open>vfs.h\<close> that the handlers use; the headers are
  not among the sources, so the values are parameters.\<close>

record vfs_consts =
  WALK_MAY_CREATE :: cint
  WALK_MUST_CREATE :: cint
  WALK_REGULAR :: cint
  WALK_DIRECTORY :: cint
  WALK_ALL_FLAGS :: cint
  MODE_READ :: cint
  MODE_WRITE :: cint
  MODE_APPEND :: cint
  L_FILE :: cint
  L_DIRECTORY :: cint
  L_CREATE :: cint
  L_EXCLUSIVE :: cint
  L_UNLINK :: cint
  L_MP :: cint
  L_DISABLE_MOUNTS :: cint
  MAX_OPEN_FILES :: nat

text \<open>Modelled from the spec: \<^verbatim>\<open>fs_handle_to_info\<close> of \<^verbatim>\<open>vfs_register.c\<close>, which is not among
  the sources: ``the backend's capability flags (concurrent-read-write,
  write-retains-size)'' of a registered file system, and the null pointer for a handle that
  is not registered.\<close>

record vfs_info =
  concurrent_read_write :: bool
  write_retains_size :: bool

record 'b vfs_env = vfs_consts +
  fs :: "out_request \<Rightarrow> 'b \<Rightarrow> fs_reply \<times> 'b"
  fs_handle_to_info :: "int \<Rightarrow> vfs_info option"

subsection \<open>The state of the broker\<close>

record mtab_ent =
  mp :: string
  opts :: string
  fs_name :: string
  mt_instance :: nat
  mt_service_id :: nat

record 'b vfs_state =
  fds :: "int \<rightharpoonup> nat"
  files :: "nat \<rightharpoonup> vfs_file"
  next_file :: nat
  nodes :: "(vfs_triplet \<times> vfs_node) list"
  root :: "vfs_triplet option"
  mtab_list :: "mtab_ent list"
  backend :: 'b
  trace :: "out_request list"

definition request :: "'b vfs_env \<Rightarrow> 'b vfs_state \<Rightarrow> out_request \<Rightarrow> fs_reply \<times> 'b vfs_state" where
  "request E st req =
     (let (r, b) = fs E req (backend st)
      in (r, st\<lparr>backend := b, trace := trace st @ [req]\<rparr>))"

subsection \<open>The descriptor table\<close>

text \<open>Modelled from the spec: \<^verbatim>\<open>vfs_file_get\<close> and \<^verbatim>\<open>vfs_file_put\<close> of \<^verbatim>\<open>vfs_file.c\<close>,
  which is not among the sources: ``\<open>get(fd) \<rightarrow> descriptor\<close> takes a reference'',
  ``\<open>put\<close> releases the reference''. The result of \<open>vfs_file_get\<close> is the address of
  the open file, its contents and the state with the reference taken; \<open>None\<close> is the
  \<^verbatim>\<open>NULL\<close> of the C function.\<close>

definition vfs_file_get :: "'b vfs_state \<Rightarrow> int \<Rightarrow> (nat \<times> vfs_file \<times> 'b vfs_state) option" where
  "vfs_file_get st fd =
     (case fds st fd of
        None \<Rightarrow> None
      | Some a \<Rightarrow>
          (case files st a of
             None \<Rightarrow> None
           | Some f \<Rightarrow>
               (let f' = f\<lparr>file_refcnt := file_refcnt f + 1\<rparr>
                in Some (a, f', st\<lparr>files := (files st)(a \<mapsto> f')\<rparr>))))"

definition vfs_file_put :: "'b vfs_state \<Rightarrow> nat \<Rightarrow> 'b vfs_state" where
  "vfs_file_put st a =
     (case files st a of
        None \<Rightarrow> st
      | Some f \<Rightarrow> st\<lparr>files := (files st)(a \<mapsto> f\<lparr>file_refcnt := file_refcnt f - 1\<rparr>)\<rparr>)"

text \<open>Writing the fields of the open file at address \<open>a\<close> back to the store.\<close>

definition store_file :: "'b vfs_state \<Rightarrow> nat \<Rightarrow> vfs_file \<Rightarrow> 'b vfs_state" where
  "store_file st a f = st\<lparr>files := (files st)(a \<mapsto> f)\<rparr>"

text \<open>Modelled from the spec: \<^verbatim>\<open>vfs_node_get_size\<close> of \<^verbatim>\<open>vfs_node.c\<close>, which is not among
  the sources: the ``cached size'' of the node (``\<^verbatim>\<open>SEEK_END\<close> reads size under node
  read-lock''). Reading through a node pointer (\<open>deref_node\<close>) is \<open>None\<close> when the
  pointer is null or dangles.\<close>

definition deref_node :: "'b vfs_state \<Rightarrow> vfs_triplet option \<Rightarrow> vfs_node option" where
  "deref_node st p = (case p of None \<Rightarrow> None | Some t \<Rightarrow> map_of (nodes st) t)"

definition vfs_node_get_size :: "'b vfs_state \<Rightarrow> vfs_triplet option \<Rightarrow> aoff64 option" where
  "vfs_node_get_size st p = map_option node_size (deref_node st p)"

section \<open>Seek\<close>

text \<open>\<^verbatim>\<open>vfs_seek\<close>. The arguments are those of the request: the descriptor, the two
  halves of the offset and \<^verbatim>\<open>whence\<close>. In \<^verbatim>\<open>file->pos + off\<close> and \<^verbatim>\<open>size + off\<close> the signed
  offset is converted to \<^verbatim>\<open>uint64_t\<close>, so the sums and comparisons are those of 64-bit
  words; \<^verbatim>\<open>(aoff64_t) -off\<close> is the two's complement negation.\<close>

definition vfs_seek ::
  "'b vfs_state \<Rightarrow> int \<Rightarrow> sysarg \<Rightarrow> sysarg \<Rightarrow> whence \<Rightarrow> ('b vfs_state \<times> answer) option" where
  "vfs_seek st fd a2 a3 wh =
     (let off = MERGE_LOUP32 a2 a3 in
      case vfs_file_get st fd of
        None \<Rightarrow> Some (st, Answer0 ENOENT)
      | Some (a, file, st1) \<Rightarrow>
          (case wh of
             SEEK_SET \<Rightarrow>
               if 0 \<le> sint off then
                 Some (vfs_file_put (store_file st1 a (file\<lparr>pos := off\<rparr>)) a, Answer1 EOK off)
               else Some (vfs_file_put st1 a, Answer0 EINVAL)
           | SEEK_CUR \<Rightarrow>
               if 0 \<le> sint off \<and> pos file + off < pos file then
                 Some (vfs_file_put st1 a, Answer0 EOVERFLOW)
               else if sint off < 0 \<and> pos file < - off then
                 Some (vfs_file_put st1 a, Answer0 EOVERFLOW)
               else
                 (let file' = file\<lparr>pos := pos file + off\<rparr>;
                      newoff = (if pos file' > OFF64_MAX then OFF64_MAX else pos file')
                  in Some (vfs_file_put (store_file st1 a file') a,
                       Answer2 EOK (LOWER32 newoff) (UPPER32 newoff)))
           | SEEK_END \<Rightarrow>
               (case vfs_node_get_size st1 (node file) of
                  None \<Rightarrow> None
                | Some sz \<Rightarrow>
                    if 0 \<le> sint off \<and> sz + off < sz then
                      Some (vfs_file_put st1 a, Answer0 EOVERFLOW)
                    else if sint off < 0 \<and> sz < - off then
                      Some (vfs_file_put st1 a, Answer0 EOVERFLOW)
                    else
                      (let file' = file\<lparr>pos := sz + off\<rparr>;
                           newoff = (if pos file' > OFF64_MAX then OFF64_MAX else pos file')
                       in Some (vfs_file_put (store_file st1 a file') a,
                            Answer2 EOK (LOWER32 newoff) (UPPER32 newoff))))
           | SEEK_OTHER \<Rightarrow> Some (vfs_file_put st1 a, Answer0 EINVAL)))"

subsection \<open>Arithmetic of the 64-bit offsets\<close>

lemma mask32: "(0xffffffff :: 64 word) = mask 32"
  by (simp add: mask_eq_exp_minus_1)

lemma MERGE_LOUP32_split: "MERGE_LOUP32 (LOWER32 x) (UPPER32 x) = x"
  unfolding MERGE_LOUP32_def LOWER32_def UPPER32_def mask32
  by (rule bit_word_eqI) (auto simp add: bit_simps)

lemma mod_once:
  fixes x m :: int
  assumes "0 \<le> x" "x < 2 * m"
  shows "x mod m = (if x < m then x else x - m)"
proof (cases "x < m")
  case True
  with assms show ?thesis by simp
next
  case False
  then have "0 \<le> x - m" "x - m < m" using assms by auto
  then have "(x - m) mod m = x - m" by (rule mod_pos_pos_trivial)
  moreover have "(x - m) mod m = x mod m" by (rule minus_mod_self2)
  ultimately show ?thesis using False by simp
qed

lemma sint64_uint:
  fixes w :: "64 word"
  shows "sint w = (if uint w < 2 ^ 63 then uint w else uint w - 2 ^ 64)"
proof -
  have b: "0 \<le> uint w" "uint w < 2 ^ 64" using uint_lt2p [of w] by simp_all
  have "sint w = (uint w + 2 ^ 63) mod 2 ^ 64 - 2 ^ 63"
    by (simp add: sint_uint signed_take_bit_eq_take_bit_shift take_bit_eq_mod)
  moreover have "(uint w + 2 ^ 63) mod 2 ^ 64 =
      (if uint w + 2 ^ 63 < 2 ^ 64 then uint w + 2 ^ 63 else uint w + 2 ^ 63 - 2 ^ 64)"
    using b by (intro mod_once) simp_all
  ultimately show ?thesis by simp
qed

lemma uint_neg64:
  fixes w :: "64 word"
  shows "uint (- w) = (if w = 0 then 0 else 2 ^ 64 - uint w)"
proof (cases "w = 0")
  case True
  then show ?thesis by simp
next
  case False
  then have "uint w \<noteq> 0" by (simp add: uint_0_iff)
  then have "0 < uint w" using uint_ge_0 [of w] by linarith
  moreover have "uint w < 2 ^ 64" using uint_lt2p [of w] by simp
  moreover have "uint (- w) = (- uint w) mod 2 ^ 64" by (simp add: uint_word_ariths)
  moreover have "(2 ^ 64 - uint w) mod 2 ^ 64 = (- uint w) mod (2 ^ 64 :: int)"
    by (metis mod_diff_left_eq mod_self diff_0)
  moreover have "0 \<le> 2 ^ 64 - uint w \<Longrightarrow> 2 ^ 64 - uint w < 2 ^ 64 \<Longrightarrow>
      (2 ^ 64 - uint w) mod 2 ^ 64 = 2 ^ 64 - uint w"
    by (rule mod_pos_pos_trivial)
  ultimately show ?thesis using False by simp
qed

text \<open>The two overflow tests of the handler, read as statements about integers.\<close>

lemma wrap_add_iff:
  fixes p off :: "64 word"
  assumes "0 \<le> sint off"
  shows "p + off < p \<longleftrightarrow> 2 ^ 64 \<le> uint p + sint off"
proof -
  have "sint off = uint off" using assms uint_lt2p [of off]
    by (simp add: sint64_uint split: if_splits)
  moreover have "p \<le> p + off \<longleftrightarrow> uint p + uint off < 2 ^ 64"
    using no_olen_add [of p off] by simp
  ultimately show ?thesis by (simp add: not_le [symmetric])
qed

lemma neg_less_iff:
  fixes p off :: "64 word"
  assumes "sint off < 0"
  shows "p < - off \<longleftrightarrow> uint p < - sint off"
proof -
  have "off \<noteq> 0" using assms by auto
  moreover have "sint off = uint off - 2 ^ 64"
    using assms by (simp add: sint64_uint split: if_splits)
  ultimately show ?thesis
    by (auto simp add: word_less_def uint_neg64)
qed

lemma uint_add_no_wrap:
  fixes p off :: "64 word"
  assumes "0 \<le> uint p + sint off" "uint p + sint off < 2 ^ 64"
  shows "uint (p + off) = uint p + sint off"
proof -
  have "uint (p + off) = (uint p + uint off) mod 2 ^ 64" by (simp add: uint_word_ariths)
  also have "\<dots> = (uint p + sint off) mod 2 ^ 64"
  proof (cases "uint off < 2 ^ 63")
    case True
    then show ?thesis by (simp add: sint64_uint)
  next
    case False
    have "(uint p + uint off - 2 ^ 64) mod 2 ^ 64 = (uint p + uint off) mod (2 ^ 64 :: int)"
      by (rule minus_mod_self2)
    with False show ?thesis by (simp add: sint64_uint add_diff_eq)
  qed
  also have "\<dots> = uint p + sint off" using assms by simp
  finally show ?thesis .
qed

subsection \<open>Taking and releasing a reference on an open file\<close>

lemma vfs_file_get_Some:
  "fds st fd = Some a \<Longrightarrow> files st a = Some f \<Longrightarrow>
   vfs_file_get st fd =
     Some (a, f\<lparr>file_refcnt := Suc (file_refcnt f)\<rparr>,
           st\<lparr>files := (files st)(a \<mapsto> f\<lparr>file_refcnt := Suc (file_refcnt f)\<rparr>)\<rparr>)"
  by (simp add: vfs_file_get_def Let_def)

lemma vfs_file_put_get:
  "files st a = Some f \<Longrightarrow>
   vfs_file_put (st\<lparr>files := (files st)(a \<mapsto> f\<lparr>file_refcnt := Suc (file_refcnt f)\<rparr>)\<rparr>) a = st"
  by (simp add: vfs_file_put_def map_upd_triv)

lemma deref_node_files [simp]: "deref_node (st\<lparr>files := x\<rparr>) p = deref_node st p"
  by (cases p) (simp_all add: deref_node_def)

lemma vfs_file_put_store:
  "vfs_file_put (store_file (st\<lparr>files := fs'\<rparr>) a (f\<lparr>file_refcnt := Suc (file_refcnt f), pos := p\<rparr>)) a =
     st\<lparr>files := fs'(a \<mapsto> f\<lparr>pos := p\<rparr>)\<rparr>"
  by (simp add: vfs_file_put_def store_file_def)

subsection \<open>What \<^verbatim>\<open>vfs_seek\<close> computes, branch by branch\<close>

definition clamp_off :: "aoff64 \<Rightarrow> off64" where
  "clamp_off p = (if p > OFF64_MAX then OFF64_MAX else p)"

lemma vfs_seek_set:
  assumes "fds st fd = Some a" and "files st a = Some f"
  shows "vfs_seek st fd a2 a3 SEEK_SET =
     (if 0 \<le> sint (MERGE_LOUP32 a2 a3)
      then Some (st\<lparr>files := (files st)(a \<mapsto> f\<lparr>pos := MERGE_LOUP32 a2 a3\<rparr>)\<rparr>,
                 Answer1 EOK (MERGE_LOUP32 a2 a3))
      else Some (st, Answer0 EINVAL))"
  using assms
  by (simp add: vfs_seek_def Let_def vfs_file_get_Some vfs_file_put_get vfs_file_put_store)

lemma vfs_seek_cur:
  assumes "fds st fd = Some a" and "files st a = Some f"
  shows "vfs_seek st fd a2 a3 SEEK_CUR =
     (if (0 \<le> sint (MERGE_LOUP32 a2 a3) \<and> pos f + MERGE_LOUP32 a2 a3 < pos f) \<or>
         (sint (MERGE_LOUP32 a2 a3) < 0 \<and> pos f < - MERGE_LOUP32 a2 a3)
      then Some (st, Answer0 EOVERFLOW)
      else Some (st\<lparr>files := (files st)(a \<mapsto> f\<lparr>pos := pos f + MERGE_LOUP32 a2 a3\<rparr>)\<rparr>,
                 Answer2 EOK (LOWER32 (clamp_off (pos f + MERGE_LOUP32 a2 a3)))
                   (UPPER32 (clamp_off (pos f + MERGE_LOUP32 a2 a3)))))"
  using assms
  by (simp add: vfs_seek_def Let_def vfs_file_get_Some vfs_file_put_get vfs_file_put_store
      clamp_off_def)

lemma vfs_seek_end:
  assumes "fds st fd = Some a" and "files st a = Some f" and "deref_node st (node f) = Some n"
  shows "vfs_seek st fd a2 a3 SEEK_END =
     (if (0 \<le> sint (MERGE_LOUP32 a2 a3) \<and> node_size n + MERGE_LOUP32 a2 a3 < node_size n) \<or>
         (sint (MERGE_LOUP32 a2 a3) < 0 \<and> node_size n < - MERGE_LOUP32 a2 a3)
      then Some (st, Answer0 EOVERFLOW)
      else Some (st\<lparr>files := (files st)(a \<mapsto> f\<lparr>pos := node_size n + MERGE_LOUP32 a2 a3\<rparr>)\<rparr>,
                 Answer2 EOK (LOWER32 (clamp_off (node_size n + MERGE_LOUP32 a2 a3)))
                   (UPPER32 (clamp_off (node_size n + MERGE_LOUP32 a2 a3)))))"
  using assms
  by (simp add: vfs_seek_def Let_def vfs_file_get_Some vfs_file_put_get vfs_file_put_store
      clamp_off_def vfs_node_get_size_def)

lemma overflow_test_iff:
  fixes p off :: "64 word"
  shows "(0 \<le> sint off \<and> p + off < p) \<or> (sint off < 0 \<and> p < - off) \<longleftrightarrow>
         (0 \<le> sint off \<and> 2 ^ 64 \<le> uint p + sint off) \<or> (sint off < 0 \<and> uint p < - sint off)"
  using wrap_add_iff [of off p] neg_less_iff [of off p] by auto

lemma no_overflow_sum:
  fixes p off :: "64 word"
  assumes "\<not> ((0 \<le> sint off \<and> 2 ^ 64 \<le> uint p + sint off) \<or> (sint off < 0 \<and> uint p < - sint off))"
  shows "uint (p + off) = uint p + sint off"
proof -
  have "0 \<le> uint p" "uint p < 2 ^ 64" using uint_lt2p [of p] by simp_all
  with assms show ?thesis by (intro uint_add_no_wrap) (auto simp: not_le not_less)
qed

subsection \<open>A concrete broker state\<close>

text \<open>One client with descriptor 0 on a regular file of size 10, at position 0.\<close>

definition ex_file :: vfs_file where
  "ex_file = \<lparr>node = Some \<lparr>fs_handle = 1, service_id = 7, index = 3\<rparr>, permissions = 7,
     open_read = True, open_write = False, append_flag = False, pos = 0, file_refcnt = 1\<rparr>"

definition ex_state :: "unit vfs_state" where
  "ex_state = \<lparr>fds = [0 \<mapsto> 0], files = [0 \<mapsto> ex_file],
     next_file = 1,
     nodes = [(\<lparr>fs_handle = 1, service_id = 7, index = 3\<rparr>,
        \<lparr>refcnt = 1, node_type = VFS_NODE_FILE, node_size = 10\<rparr>)],
     root = None, mtab_list = [], backend = (), trace = []\<rparr>"

lemma merge_m20: "MERGE_LOUP32 0xffffffec 0xffffffff = - 20"
  by (simp add: MERGE_LOUP32_def)


subsection \<open>Overflow of relative seeks\<close>

text \<open>
  C6. For every descriptor position \<open>p\<close> and offset \<open>off\<close>, \<^verbatim>\<open>SEEK_CUR\<close> answers
  \<^verbatim>\<open>EOVERFLOW\<close> exactly when \<open>off \<ge> 0\<close> and the unsigned sum \<open>p + off\<close> wraps (it
  reaches \<open>2^64\<close>), or \<open>off < 0\<close> and \<open>p < -off\<close>; \<^verbatim>\<open>SEEK_END\<close> does the same with the
  cached size of the node in place of \<open>p\<close>. In every \<^verbatim>\<open>EOVERFLOW\<close> case the state, and
  with it the position of the descriptor, is left as it was; in every other case the
  answer is \<^verbatim>\<open>EOK\<close> and the new position is the exact integer sum.
\<close>

theorem seek_overflow:
  assumes "fds st fd = Some a" and "files st a = Some f" and "deref_node st (node f) = Some n"
  shows "(\<exists>st' ans. vfs_seek st fd a2 a3 SEEK_CUR = Some (st', ans) \<and>
            (retval ans = EOVERFLOW \<longleftrightarrow>
               (0 \<le> sint (MERGE_LOUP32 a2 a3) \<and> 2 ^ 64 \<le> uint (pos f) + sint (MERGE_LOUP32 a2 a3)) \<or>
               (sint (MERGE_LOUP32 a2 a3) < 0 \<and> uint (pos f) < - sint (MERGE_LOUP32 a2 a3))) \<and>
            (if retval ans = EOVERFLOW then st' = st
             else retval ans = EOK \<and>
                  map_option (\<lambda>g. uint (pos g)) (files st' a) =
                    Some (uint (pos f) + sint (MERGE_LOUP32 a2 a3)))) \<and>
         (\<exists>st' ans. vfs_seek st fd a2 a3 SEEK_END = Some (st', ans) \<and>
            (retval ans = EOVERFLOW \<longleftrightarrow>
               (0 \<le> sint (MERGE_LOUP32 a2 a3) \<and> 2 ^ 64 \<le> uint (node_size n) + sint (MERGE_LOUP32 a2 a3)) \<or>
               (sint (MERGE_LOUP32 a2 a3) < 0 \<and> uint (node_size n) < - sint (MERGE_LOUP32 a2 a3))) \<and>
            (if retval ans = EOVERFLOW then st' = st
             else retval ans = EOK \<and>
                  map_option (\<lambda>g. uint (pos g)) (files st' a) =
                    Some (uint (node_size n) + sint (MERGE_LOUP32 a2 a3))))"
proof (intro conjI)
  show "\<exists>st' ans. vfs_seek st fd a2 a3 SEEK_CUR = Some (st', ans) \<and>
            (retval ans = EOVERFLOW \<longleftrightarrow>
               (0 \<le> sint (MERGE_LOUP32 a2 a3) \<and> 2 ^ 64 \<le> uint (pos f) + sint (MERGE_LOUP32 a2 a3)) \<or>
               (sint (MERGE_LOUP32 a2 a3) < 0 \<and> uint (pos f) < - sint (MERGE_LOUP32 a2 a3))) \<and>
            (if retval ans = EOVERFLOW then st' = st
             else retval ans = EOK \<and>
                  map_option (\<lambda>g. uint (pos g)) (files st' a) =
                    Some (uint (pos f) + sint (MERGE_LOUP32 a2 a3)))"
    using no_overflow_sum [of "MERGE_LOUP32 a2 a3" "pos f"]
    by (simp add: vfs_seek_cur [OF assms(1,2)] overflow_test_iff del: not_le not_less)
  show "\<exists>st' ans. vfs_seek st fd a2 a3 SEEK_END = Some (st', ans) \<and>
            (retval ans = EOVERFLOW \<longleftrightarrow>
               (0 \<le> sint (MERGE_LOUP32 a2 a3) \<and> 2 ^ 64 \<le> uint (node_size n) + sint (MERGE_LOUP32 a2 a3)) \<or>
               (sint (MERGE_LOUP32 a2 a3) < 0 \<and> uint (node_size n) < - sint (MERGE_LOUP32 a2 a3))) \<and>
            (if retval ans = EOVERFLOW then st' = st
             else retval ans = EOK \<and>
                  map_option (\<lambda>g. uint (pos g)) (files st' a) =
                    Some (uint (node_size n) + sint (MERGE_LOUP32 a2 a3)))"
    using no_overflow_sum [of "MERGE_LOUP32 a2 a3" "node_size n"]
    by (simp add: vfs_seek_end [OF assms] overflow_test_iff del: not_le not_less)
qed

text \<open>Scenario S5 of the specification: size 10, offset \<open>-20\<close>, \<^verbatim>\<open>SEEK_END\<close>.\<close>

theorem seek_overflow_witness:
  "fds ex_state 0 = Some 0 \<and> files ex_state 0 = Some ex_file \<and>
   deref_node ex_state (node ex_file) = Some \<lparr>refcnt = 1, node_type = VFS_NODE_FILE, node_size = 10\<rparr> \<and>
   sint (MERGE_LOUP32 0xffffffec 0xffffffff) = - 20 \<and>
   (\<exists>ans. vfs_seek ex_state 0 0xffffffec 0xffffffff SEEK_END = Some (ex_state, ans) \<and>
      retval ans = EOVERFLOW) \<and>
   map_option pos (files ex_state 0) = Some 0"
proof -
  have h: "fds ex_state 0 = Some 0" "files ex_state 0 = Some ex_file"
    "deref_node ex_state (node ex_file) = Some \<lparr>refcnt = 1, node_type = VFS_NODE_FILE, node_size = 10\<rparr>"
    by (simp_all add: ex_state_def ex_file_def deref_node_def)
  have m: "sint (MERGE_LOUP32 0xffffffec 0xffffffff) = - 20"
    by (simp add: merge_m20)
  from seek_overflow [OF h, of "0xffffffec" "0xffffffff"]
  have "\<exists>st' ans. vfs_seek ex_state 0 0xffffffec 0xffffffff SEEK_END = Some (st', ans) \<and>
      retval ans = EOVERFLOW \<and> st' = ex_state"
    unfolding m by (elim conjE exE) (simp split: if_splits)
  then show ?thesis using h m by (auto simp: ex_file_def)
qed


subsection \<open>Seek round trip\<close>

text \<open>
  C5. For every \<open>k \<ge> 0\<close> and every open descriptor, \<^verbatim>\<open>SEEK_SET(k)\<close> followed by
  \<^verbatim>\<open>SEEK_CUR(0)\<close> succeeds, and the 64-bit value that the answer of the \<^verbatim>\<open>SEEK_CUR(0)\<close>
  carries in its two halves equals \<open>min(k, OFF64_MAX)\<close>.
\<close>

theorem seek_set_cur_roundtrip:
  assumes "fds st fd = Some a" and "files st a = Some f" and "0 \<le> sint (MERGE_LOUP32 a2 a3)"
  shows "\<exists>st1 st2 lo hi.
           vfs_seek st fd a2 a3 SEEK_SET = Some (st1, Answer1 EOK (MERGE_LOUP32 a2 a3)) \<and>
           vfs_seek st1 fd 0 0 SEEK_CUR = Some (st2, Answer2 EOK lo hi) \<and>
           sint (MERGE_LOUP32 lo hi) = min (sint (MERGE_LOUP32 a2 a3)) (sint OFF64_MAX)"
proof -
  define k where "k = MERGE_LOUP32 a2 a3"
  define st1 where "st1 = st\<lparr>files := (files st)(a \<mapsto> f\<lparr>pos := k\<rparr>)\<rparr>"
  have s1: "vfs_seek st fd a2 a3 SEEK_SET = Some (st1, Answer1 EOK k)"
    using assms(3) by (simp add: vfs_seek_set [OF assms(1,2)] k_def st1_def)
  have fd1: "fds st1 fd = Some a" "files st1 a = Some (f\<lparr>pos := k\<rparr>)"
    using assms(1) by (simp_all add: st1_def)
  have z: "MERGE_LOUP32 0 0 = 0" by (simp add: MERGE_LOUP32_def)
  have le: "k \<le> OFF64_MAX"
    using assms(3) uint_lt2p [of k]
    by (simp add: k_def [symmetric] word_le_def OFF64_MAX_def sint64_uint split: if_splits)
  have "vfs_seek st1 fd 0 0 SEEK_CUR =
      Some (st1\<lparr>files := (files st1)(a \<mapsto> f\<lparr>pos := k\<rparr>)\<rparr>, Answer2 EOK (LOWER32 k) (UPPER32 k))"
    using le by (simp add: vfs_seek_cur [OF fd1] z clamp_off_def not_less [symmetric])
  moreover have "st1\<lparr>files := (files st1)(a \<mapsto> f\<lparr>pos := k\<rparr>)\<rparr> = st1"
    by (simp add: st1_def)
  ultimately have s2: "vfs_seek st1 fd 0 0 SEEK_CUR = Some (st1, Answer2 EOK (LOWER32 k) (UPPER32 k))"
    by simp
  have "sint k \<le> sint OFF64_MAX"
    using sint_lt [of k] by (simp add: OFF64_MAX_def)
  then have "sint (MERGE_LOUP32 (LOWER32 k) (UPPER32 k)) = min (sint k) (sint OFF64_MAX)"
    by (simp add: MERGE_LOUP32_split)
  with s1 s2 show ?thesis unfolding k_def by blast
qed

theorem seek_set_cur_roundtrip_witness:
  "fds ex_state 0 = Some 0 \<and> files ex_state 0 = Some ex_file \<and>
   sint (MERGE_LOUP32 5 0) = 5 \<and>
   (\<exists>st1 st2 lo hi.
      vfs_seek ex_state 0 5 0 SEEK_SET = Some (st1, Answer1 EOK 5) \<and>
      vfs_seek st1 0 0 0 SEEK_CUR = Some (st2, Answer2 EOK lo hi) \<and>
      sint (MERGE_LOUP32 lo hi) = 5)"
proof -
  have h: "fds ex_state 0 = Some 0" "files ex_state 0 = Some ex_file"
    by (simp_all add: ex_state_def)
  have m: "MERGE_LOUP32 5 0 = 5" by (simp add: MERGE_LOUP32_def)
  have k: "0 \<le> sint (MERGE_LOUP32 5 0)" by (simp add: m)
  show ?thesis
    using seek_set_cur_roundtrip [OF h k] h by (simp add: m OFF64_MAX_def)
qed

section \<open>The node cache and the descriptor table\<close>

text \<open>Modelled from the spec: \<^verbatim>\<open>vfs_node_get\<close>, \<^verbatim>\<open>vfs_node_put\<close>, \<^verbatim>\<open>vfs_node_forget\<close> and
  \<^verbatim>\<open>vfs_nodes_refcount_sum_get\<close> of \<^verbatim>\<open>vfs_node.c\<close>, which is not among the sources.
  ``\<open>get(lookup_result) \<rightarrow> node\<close> interns by triplet; if present, increments refcount
  and returns; if absent, installs a new node carrying one reference and the
  backend-reported size and type.'' ``\<open>put(node)\<close> decrements refcount; at zero, removes
  from cache and sends a \<^verbatim>\<open>DESTROY\<close> to the backend for the triplet.'' ``\<open>forget(node)\<close>
  removes from cache and drops the reference without notifying the backend.''
  ``\<open>refcount_sum(backend, service) \<rightarrow> count\<close> sums refcounts of all cached nodes
  belonging to a specific mounted filesystem.'' Allocation does not fail in this model, so
  \<open>vfs_node_get\<close> never returns the null pointer; its callers keep their test for it.\<close>

definition vfs_node_get :: "'b vfs_state \<Rightarrow> vfs_lookup_res \<Rightarrow> vfs_triplet option \<times> 'b vfs_state" where
  "vfs_node_get st lr =
     (case map_of (nodes st) (triplet lr) of
        Some n \<Rightarrow>
          (Some (triplet lr),
           st\<lparr>nodes := AList.update (triplet lr) (n\<lparr>refcnt := refcnt n + 1\<rparr>) (nodes st)\<rparr>)
      | None \<Rightarrow>
          (Some (triplet lr),
           st\<lparr>nodes := AList.update (triplet lr)
                  \<lparr>refcnt = 1, node_type = lr_type lr, node_size = lr_size lr\<rparr> (nodes st)\<rparr>))"

definition vfs_node_put :: "'b vfs_env \<Rightarrow> 'b vfs_state \<Rightarrow> vfs_triplet \<Rightarrow> 'b vfs_state" where
  "vfs_node_put E st t =
     (case map_of (nodes st) t of
        None \<Rightarrow> st
      | Some n \<Rightarrow>
          if refcnt n \<le> 1 then
            snd (request E (st\<lparr>nodes := AList.delete t (nodes st)\<rparr>) (OUT_DESTROY t))
          else st\<lparr>nodes := AList.update t (n\<lparr>refcnt := refcnt n - 1\<rparr>) (nodes st)\<rparr>)"

definition vfs_node_forget :: "'b vfs_state \<Rightarrow> vfs_triplet \<Rightarrow> 'b vfs_state" where
  "vfs_node_forget st t = st\<lparr>nodes := AList.delete t (nodes st)\<rparr>"

definition vfs_nodes_refcount_sum_get :: "'b vfs_state \<Rightarrow> int \<Rightarrow> nat \<Rightarrow> nat" where
  "vfs_nodes_refcount_sum_get st h s =
     sum_list (map (\<lambda>(t, n). refcnt n)
       (filter (\<lambda>(t, n). fs_handle t = h \<and> service_id t = s) (nodes st)))"

text \<open>Modelled from the spec: \<^verbatim>\<open>vfs_fd_alloc\<close>, \<^verbatim>\<open>vfs_fd_free\<close> and \<^verbatim>\<open>vfs_fd_assign\<close> of
  \<^verbatim>\<open>vfs_file.c\<close>, which is not among the sources. ``\<open>alloc(exclusive: bool) \<rightarrow> fd\<close>
  returns the lowest free slot''; the new open file is zeroed and holds the reference of
  its slot; a full table gives a negative error code. ``\<open>free(fd)\<close> closes: decrements
  the node refcount and clears the slot.'' ``\<open>assign(file, fd)\<close> binds an
  already-constructed descriptor to a chosen slot for dup''; ``reference count on the
  underlying node is bumped by the assign''. A slot outside the table or in use refuses
  the assignment.\<close>

definition zero_file :: vfs_file where
  "zero_file = \<lparr>node = None, permissions = 0, open_read = False, open_write = False,
     append_flag = False, pos = 0, file_refcnt = 1\<rparr>"

definition vfs_fd_alloc :: "'b vfs_env \<Rightarrow> 'b vfs_state \<Rightarrow> (int \<times> 'b vfs_state) option" where
  "vfs_fd_alloc E st =
     (case find (\<lambda>i. fds st (int i) = None) [0..<MAX_OPEN_FILES E] of
        None \<Rightarrow> None
      | Some i \<Rightarrow>
          Some (int i,
            st\<lparr>fds := (fds st)(int i \<mapsto> next_file st),
               files := (files st)(next_file st \<mapsto> zero_file),
               next_file := next_file st + 1\<rparr>))"

definition vfs_fd_free :: "'b vfs_env \<Rightarrow> 'b vfs_state \<Rightarrow> int \<Rightarrow> errno \<times> 'b vfs_state" where
  "vfs_fd_free E st fd =
     (case fds st fd of
        None \<Rightarrow> (EBADF, st)
      | Some a \<Rightarrow>
          (let st1 = st\<lparr>fds := (fds st)(fd := None)\<rparr> in
           case files st1 a of
             None \<Rightarrow> (EOK, st1)
           | Some f \<Rightarrow>
               (let st2 =
                  (if file_refcnt f \<le> 1 then st1\<lparr>files := (files st1)(a := None)\<rparr>
                   else st1\<lparr>files := (files st1)(a \<mapsto> f\<lparr>file_refcnt := file_refcnt f - 1\<rparr>)\<rparr>)
                in (EOK, case node f of None \<Rightarrow> st2 | Some t \<Rightarrow> vfs_node_put E st2 t))))"

definition vfs_fd_assign :: "'b vfs_env \<Rightarrow> 'b vfs_state \<Rightarrow> nat \<Rightarrow> int \<Rightarrow> errno \<times> 'b vfs_state" where
  "vfs_fd_assign E st a fd =
     (if fd < 0 \<or> int (MAX_OPEN_FILES E) \<le> fd \<or> fds st fd \<noteq> None then (EINVAL, st)
      else
        (case files st a of
           None \<Rightarrow> (EINVAL, st)
         | Some f \<Rightarrow>
             (let st1 = st\<lparr>fds := (fds st)(fd \<mapsto> a),
                          files := (files st)(a \<mapsto> f\<lparr>file_refcnt := file_refcnt f + 1\<rparr>)\<rparr>
              in (EOK,
                  case node f of
                    None \<Rightarrow> st1
                  | Some t \<Rightarrow>
                      (case map_of (nodes st1) t of
                         None \<Rightarrow> st1
                       | Some n \<Rightarrow>
                           st1\<lparr>nodes := AList.update t (n\<lparr>refcnt := refcnt n + 1\<rparr>) (nodes st1)\<rparr>)))))"

text \<open>\<^verbatim>\<open>vfs_lookup_internal\<close>, \<^verbatim>\<open>vfs_link_internal\<close> (\<^verbatim>\<open>vfs_lookup.c\<close>) and
  \<^verbatim>\<open>vfs_open_node_remote\<close> (\<^verbatim>\<open>vfs_node.c\<close>) are requests to the servers; the base of a
  lookup is a \<^verbatim>\<open>vfs_triplet_t *\<close> that may be null.\<close>

definition vfs_lookup_internal ::
  "'b vfs_env \<Rightarrow> 'b vfs_state \<Rightarrow> vfs_triplet option \<Rightarrow> string \<Rightarrow> cint \<Rightarrow> fs_reply \<times> 'b vfs_state" where
  "vfs_lookup_internal E st base path lflag = request E st (OUT_LOOKUP base path lflag)"

definition vfs_link_internal ::
  "'b vfs_env \<Rightarrow> 'b vfs_state \<Rightarrow> vfs_triplet \<Rightarrow> string \<Rightarrow> vfs_triplet \<Rightarrow> fs_reply \<times> 'b vfs_state" where
  "vfs_link_internal E st base path child = request E st (OUT_LINK base path child)"

definition vfs_open_node_remote ::
  "'b vfs_env \<Rightarrow> 'b vfs_state \<Rightarrow> vfs_triplet \<Rightarrow> fs_reply \<times> 'b vfs_state" where
  "vfs_open_node_remote E st t = request E st (OUT_OPEN_NODE t)"

section \<open>Walk\<close>

definition walk_flags_valid :: "'b vfs_env \<Rightarrow> cint \<Rightarrow> bool" where
  "walk_flags_valid E flags =
     (if flags AND NOT (WALK_ALL_FLAGS E) \<noteq> 0 then False
      else if flags AND WALK_MAY_CREATE E \<noteq> 0 \<and> flags AND WALK_MUST_CREATE E \<noteq> 0 then False
      else if flags AND WALK_REGULAR E \<noteq> 0 \<and> flags AND WALK_DIRECTORY E \<noteq> 0 then False
      else if (flags AND WALK_MAY_CREATE E \<noteq> 0 \<or> flags AND WALK_MUST_CREATE E \<noteq> 0) \<and>
              \<not> flags AND WALK_DIRECTORY E \<noteq> 0 \<and> \<not> flags AND WALK_REGULAR E \<noteq> 0 then False
      else True)"

definition walk_lookup_flags :: "'b vfs_env \<Rightarrow> cint \<Rightarrow> cint" where
  "walk_lookup_flags E flags =
     (let lflags = 0;
          lflags = (if flags AND WALK_MAY_CREATE E \<noteq> 0 \<or> flags AND WALK_MUST_CREATE E \<noteq> 0
                    then lflags OR L_CREATE E else lflags);
          lflags = (if flags AND WALK_MUST_CREATE E \<noteq> 0 then lflags OR L_EXCLUSIVE E else lflags);
          lflags = (if flags AND WALK_REGULAR E \<noteq> 0 then lflags OR L_FILE E else lflags);
          lflags = (if flags AND WALK_DIRECTORY E \<noteq> 0 then lflags OR L_DIRECTORY E else lflags)
      in lflags)"

text \<open>\<^verbatim>\<open>vfs_walk\<close>. The third argument is what \<^verbatim>\<open>async_data_write_accept\<close> delivers: a
  return code and the path. The handler does not test that return code; when the transfer
  failed the pointer \<^verbatim>\<open>path\<close> is uninitialised and its use is undefined. \<open>put_parent\<close> is
  the recurring \<^verbatim>\<open>if (parent) vfs_file_put(parent)\<close>.\<close>

definition put_parent :: "'b vfs_state \<Rightarrow> nat option \<Rightarrow> 'b vfs_state" where
  "put_parent st parent = (case parent of None \<Rightarrow> st | Some a \<Rightarrow> vfs_file_put st a)"

definition walk_from ::
  "'b vfs_env \<Rightarrow> 'b vfs_state \<Rightarrow> nat option \<Rightarrow> vfs_triplet option \<Rightarrow> cint \<Rightarrow> cint \<Rightarrow> string \<Rightarrow>
     ('b vfs_state \<times> answer) option" where
  "walk_from E st parent parent_node parent_perm flags path =
     (let (r, st1) = vfs_lookup_internal E st parent_node path (walk_lookup_flags E flags) in
      if rc r \<noteq> EOK then Some (put_parent st1 parent, Answer0 (rc r))
      else
        (let (nd, st2) = vfs_node_get st1 (lres r) in
         case vfs_fd_alloc E st2 of
           None \<Rightarrow>
             (case nd of
                None \<Rightarrow> None
              | Some t \<Rightarrow> Some (put_parent (vfs_node_put E st2 t) parent, Answer0 EMFILE))
         | Some (fd, st3) \<Rightarrow>
             (case vfs_file_get st3 fd of
                None \<Rightarrow> None
              | Some (a, file, st4) \<Rightarrow>
                  (let file' = file\<lparr>node := nd,
                         permissions :=
                           (case parent of
                              Some _ \<Rightarrow> parent_perm
                            | None \<Rightarrow> MODE_READ E OR MODE_WRITE E OR MODE_APPEND E),
                         open_read := False, open_write := False\<rparr>;
                       st5 = vfs_file_put (store_file st4 a file') a
                   in Some (put_parent st5 parent, Answer1 EOK (word_of_int fd))))))"

definition vfs_walk ::
  "'b vfs_env \<Rightarrow> 'b vfs_state \<Rightarrow> int \<Rightarrow> cint \<Rightarrow> errno \<times> string \<Rightarrow> ('b vfs_state \<times> answer) option" where
  "vfs_walk E st parentfd flags accepted =
     (if \<not> walk_flags_valid E flags then Some (st, Answer0 EINVAL)
      else if fst accepted \<noteq> EOK then None
      else if parentfd \<noteq> - 1 then
        (case vfs_file_get st parentfd of
           None \<Rightarrow> Some (st, Answer0 EBADF)
         | Some (pa, parent, st1) \<Rightarrow>
             walk_from E st1 (Some pa) (node parent) (permissions parent) flags (snd accepted))
      else walk_from E st None (root st) 0 flags (snd accepted))"

section \<open>Open\<close>

text \<open>\<^verbatim>\<open>vfs_open2\<close>.\<close>

definition vfs_open2 :: "'b vfs_env \<Rightarrow> 'b vfs_state \<Rightarrow> int \<Rightarrow> cint \<Rightarrow> ('b vfs_state \<times> answer) option" where
  "vfs_open2 E st fd flags =
     (if flags = 0 then Some (st, Answer0 EINVAL)
      else
        (case vfs_file_get st fd of
           None \<Rightarrow> Some (st, Answer0 EBADF)
         | Some (a, file, st1) \<Rightarrow>
             if flags AND NOT (permissions file) \<noteq> 0 then Some (vfs_file_put st1 a, Answer0 EPERM)
             else
               (let file1 = file\<lparr>open_read := flags AND MODE_READ E \<noteq> 0,
                                  open_write := flags AND (MODE_WRITE E OR MODE_APPEND E) \<noteq> 0,
                                  append_flag := flags AND MODE_APPEND E \<noteq> 0\<rparr>;
                    st2 = store_file st1 a file1
                in
                  if \<not> open_read file1 \<and> \<not> open_write file1 then
                    Some (vfs_file_put st2 a, Answer0 EINVAL)
                  else
                    (case node file1 of
                       None \<Rightarrow> None
                     | Some t \<Rightarrow>
                         (case deref_node st2 (node file1) of
                            None \<Rightarrow> None
                          | Some n \<Rightarrow>
                              if node_type n = VFS_NODE_DIRECTORY \<and> open_write file1 then
                                Some (vfs_file_put
                                        (store_file st2 a (file1\<lparr>open_read := False, open_write := False\<rparr>)) a,
                                      Answer0 EINVAL)
                              else
                                (let (r, st3) = vfs_open_node_remote E st2 t in
                                 if rc r \<noteq> EOK then
                                   Some (vfs_file_put
                                           (store_file st3 a (file1\<lparr>open_read := False, open_write := False\<rparr>)) a,
                                         Answer0 (rc r))
                                 else Some (vfs_file_put st3 a, Answer0 EOK)))))))"

section \<open>Frame properties of the helpers\<close>

lemma request_trace:
  "trace (snd (request E st req)) = trace st @ [req]"
  by (simp add: request_def split_beta)

lemma request_frame [simp]:
  "fds (snd (request E st req)) = fds st"
  "files (snd (request E st req)) = files st"
  "nodes (snd (request E st req)) = nodes st"
  "root (snd (request E st req)) = root st"
  "mtab_list (snd (request E st req)) = mtab_list st"
  "next_file (snd (request E st req)) = next_file st"
  by (simp_all add: request_def split_beta)

lemma vfs_file_put_frame [simp]:
  "trace (vfs_file_put st a) = trace st"
  "backend (vfs_file_put st a) = backend st"
  "nodes (vfs_file_put st a) = nodes st"
  "fds (vfs_file_put st a) = fds st"
  "root (vfs_file_put st a) = root st"
  "mtab_list (vfs_file_put st a) = mtab_list st"
  by (simp_all add: vfs_file_put_def split: option.splits)

lemma put_parent_frame [simp]:
  "trace (put_parent st p) = trace st"
  "backend (put_parent st p) = backend st"
  "nodes (put_parent st p) = nodes st"
  "fds (put_parent st p) = fds st"
  "root (put_parent st p) = root st"
  "mtab_list (put_parent st p) = mtab_list st"
  by (simp_all add: put_parent_def split: option.splits)

lemma store_file_frame [simp]:
  "trace (store_file st a f) = trace st"
  "backend (store_file st a f) = backend st"
  "nodes (store_file st a f) = nodes st"
  "fds (store_file st a f) = fds st"
  "root (store_file st a f) = root st"
  "mtab_list (store_file st a f) = mtab_list st"
  "files (store_file st a f) = (files st)(a \<mapsto> f)"
  by (simp_all add: store_file_def)

lemma vfs_file_get_frame:
  assumes "vfs_file_get st fd = Some (a, f, st1)"
  shows "trace st1 = trace st" "backend st1 = backend st" "nodes st1 = nodes st"
    "fds st1 = fds st" "root st1 = root st" "mtab_list st1 = mtab_list st"
    "fds st fd = Some a" "files st1 a = Some f"
    "\<exists>g. files st a = Some g \<and> f = g\<lparr>file_refcnt := Suc (file_refcnt g)\<rparr>
        \<and> st1 = st\<lparr>files := (files st)(a \<mapsto> f)\<rparr>"
  using assms by (auto simp: vfs_file_get_def Let_def split: option.splits)

lemma vfs_node_get_frame [simp]:
  "trace (snd (vfs_node_get st lr)) = trace st"
  "backend (snd (vfs_node_get st lr)) = backend st"
  "fds (snd (vfs_node_get st lr)) = fds st"
  "files (snd (vfs_node_get st lr)) = files st"
  "root (snd (vfs_node_get st lr)) = root st"
  "mtab_list (snd (vfs_node_get st lr)) = mtab_list st"
  "fst (vfs_node_get st lr) = Some (triplet lr)"
  by (simp_all add: vfs_node_get_def split: option.splits)

lemma vfs_node_put_trace:
  "trace (vfs_node_put E st t) = trace st \<or> trace (vfs_node_put E st t) = trace st @ [OUT_DESTROY t]"
  by (simp add: vfs_node_put_def request_trace split: option.splits)

lemma vfs_fd_alloc_frame:
  assumes "vfs_fd_alloc E st = Some (fd, st1)"
  shows "trace st1 = trace st" "backend st1 = backend st" "nodes st1 = nodes st"
    "root st1 = root st" "mtab_list st1 = mtab_list st"
    "\<exists>a f. vfs_file_get st1 fd = Some (a, f, st1\<lparr>files := (files st1)(a \<mapsto> f)\<rparr>)"
  using assms by (auto simp: vfs_fd_alloc_def vfs_file_get_def Let_def split: option.splits)

lemma walk_from_trace:
  "\<exists>st' ans rest. walk_from E st parent pn perm flags path = Some (st', ans) \<and>
     trace st' = trace st @ OUT_LOOKUP pn path (walk_lookup_flags E flags) # rest"
proof -
  obtain r st1 where l: "vfs_lookup_internal E st pn path (walk_lookup_flags E flags) = (r, st1)"
    by (cases "vfs_lookup_internal E st pn path (walk_lookup_flags E flags)")
  then have t1: "trace st1 = trace st @ [OUT_LOOKUP pn path (walk_lookup_flags E flags)]"
    using request_trace [of E st "OUT_LOOKUP pn path (walk_lookup_flags E flags)"]
    by (simp add: vfs_lookup_internal_def)
  show ?thesis
  proof (cases "rc r = EOK")
    case False
    then show ?thesis using l t1 by (simp add: walk_from_def)
  next
    case True
    obtain nd st2 where g: "vfs_node_get st1 (lres r) = (nd, st2)"
      by (cases "vfs_node_get st1 (lres r)")
    then have nd: "nd = Some (triplet (lres r))" and t2: "trace st2 = trace st1"
      using vfs_node_get_frame(1,7) [of st1 "lres r"] by simp_all
    show ?thesis
    proof (cases "vfs_fd_alloc E st2")
      case None
      then show ?thesis
        using l True g nd t1 t2 vfs_node_put_trace [of E st2 "triplet (lres r)"]
        by (auto simp: walk_from_def)
    next
      case (Some p)
      obtain fd st3 where p: "p = (fd, st3)" by (cases p)
      from vfs_fd_alloc_frame(1,6) [OF Some [unfolded p]]
      obtain a f where t3: "trace st3 = trace st2"
        and fg: "vfs_file_get st3 fd = Some (a, f, st3\<lparr>files := (files st3)(a \<mapsto> f)\<rparr>)"
        by blast
      show ?thesis
        using l True g nd t1 t2 t3 Some p fg
        by (simp add: walk_from_def Let_def)
    qed
  qed
qed

subsection \<open>A concrete environment\<close>

text \<open>Flag constants as distinct bits, a table of four slots and servers that answer every
  request with \<^verbatim>\<open>EOK\<close> and the triplet of the file of \<open>ex_state\<close>.\<close>

definition ok_reply :: fs_reply where
  "ok_reply = \<lparr>rc = EOK,
     lres = \<lparr>triplet = \<lparr>fs_handle = 1, service_id = 7, index = 3\<rparr>, lr_size = 10, lr_type = VFS_NODE_FILE\<rparr>,
     arg1 = 0, arg2 = 0, arg3 = 0\<rparr>"

definition ex_env :: "unit vfs_env" where
  "ex_env = \<lparr>WALK_MAY_CREATE = 1, WALK_MUST_CREATE = 2, WALK_REGULAR = 4, WALK_DIRECTORY = 8,
     WALK_ALL_FLAGS = 15, MODE_READ = 1, MODE_WRITE = 2, MODE_APPEND = 4,
     L_FILE = 1, L_DIRECTORY = 2, L_CREATE = 4, L_EXCLUSIVE = 8, L_UNLINK = 16, L_MP = 32,
     L_DISABLE_MOUNTS = 64, MAX_OPEN_FILES = 4,
     fs = (\<lambda>req b. (ok_reply, b)),
     fs_handle_to_info =
       (\<lambda>h. Some \<lparr>concurrent_read_write = False, write_retains_size = False\<rparr>)\<rparr>"

section \<open>Validation of the walk flags\<close>

text \<open>
  C3. For every walk-flags word: if it contains bits outside \<^verbatim>\<open>WALK_ALL_FLAGS\<close>, or both
  \<^verbatim>\<open>WALK_MAY_CREATE\<close> and \<^verbatim>\<open>WALK_MUST_CREATE\<close>, or both \<^verbatim>\<open>WALK_REGULAR\<close> and
  \<^verbatim>\<open>WALK_DIRECTORY\<close>, or a create flag without a type flag, \<^verbatim>\<open>vfs_walk\<close> answers
  \<^verbatim>\<open>EINVAL\<close> with the state, and so the trace of requests to the servers, unchanged.
  Otherwise the validation passes: once the path has arrived, the handler either answers
  \<^verbatim>\<open>EBADF\<close> for a parent descriptor that does not exist, or issues the lookup.
\<close>

theorem walk_flags_checked_first:
  "if flags AND NOT (WALK_ALL_FLAGS E) \<noteq> 0 \<or>
      (flags AND WALK_MAY_CREATE E \<noteq> 0 \<and> flags AND WALK_MUST_CREATE E \<noteq> 0) \<or>
      (flags AND WALK_REGULAR E \<noteq> 0 \<and> flags AND WALK_DIRECTORY E \<noteq> 0) \<or>
      ((flags AND WALK_MAY_CREATE E \<noteq> 0 \<or> flags AND WALK_MUST_CREATE E \<noteq> 0) \<and>
       flags AND WALK_DIRECTORY E = 0 \<and> flags AND WALK_REGULAR E = 0)
   then vfs_walk E st parentfd flags accepted = Some (st, Answer0 EINVAL)
   else walk_flags_valid E flags \<and>
        (fst accepted = EOK \<longrightarrow>
           (\<exists>st' ans. vfs_walk E st parentfd flags accepted = Some (st', ans) \<and>
              (if parentfd \<noteq> - 1 \<and> vfs_file_get st parentfd = None
               then st' = st \<and> ans = Answer0 EBADF
               else \<exists>base rest. trace st' =
                      trace st @ OUT_LOOKUP base (snd accepted) (walk_lookup_flags E flags) # rest)))"
proof (cases "walk_flags_valid E flags")
  case False
  then show ?thesis
    by (auto simp: vfs_walk_def walk_flags_valid_def split: if_splits)
next
  case True
  then have good: "\<not> (flags AND NOT (WALK_ALL_FLAGS E) \<noteq> 0 \<or>
      (flags AND WALK_MAY_CREATE E \<noteq> 0 \<and> flags AND WALK_MUST_CREATE E \<noteq> 0) \<or>
      (flags AND WALK_REGULAR E \<noteq> 0 \<and> flags AND WALK_DIRECTORY E \<noteq> 0) \<or>
      ((flags AND WALK_MAY_CREATE E \<noteq> 0 \<or> flags AND WALK_MUST_CREATE E \<noteq> 0) \<and>
       flags AND WALK_DIRECTORY E = 0 \<and> flags AND WALK_REGULAR E = 0))"
    by (auto simp: walk_flags_valid_def split: if_splits)
  have walk: "\<exists>st' ans. vfs_walk E st parentfd flags accepted = Some (st', ans) \<and>
              (if parentfd \<noteq> - 1 \<and> vfs_file_get st parentfd = None
               then st' = st \<and> ans = Answer0 EBADF
               else \<exists>base rest. trace st' =
                      trace st @ OUT_LOOKUP base (snd accepted) (walk_lookup_flags E flags) # rest)"
    if acc: "fst accepted = EOK"
  proof (cases "parentfd = - 1")
    case root: True
    from walk_from_trace [of E st None "root st" 0 flags "snd accepted"]
    show ?thesis using True acc root by (auto simp: vfs_walk_def)
  next
    case rel: False
    show ?thesis
    proof (cases "vfs_file_get st parentfd")
      case None
      then show ?thesis using True acc rel by (simp add: vfs_walk_def)
    next
      case (Some q)
      obtain pa parent st1 where q: "q = (pa, parent, st1)" by (cases q)
      from walk_from_trace [of E st1 "Some pa" "node parent" "permissions parent" flags "snd accepted"]
        vfs_file_get_frame(1) [OF Some [unfolded q]]
      show ?thesis using True acc rel Some q by (auto simp: vfs_walk_def)
    qed
  qed
  show ?thesis
    unfolding if_not_P [OF good] using True walk by blast
qed

theorem walk_flags_checked_first_witness:
  "vfs_walk ex_env ex_state (- 1) 3 (EOK, ''/a'') = Some (ex_state, Answer0 EINVAL) \<and>
   vfs_walk ex_env ex_state (- 1) 1 (EOK, ''/a'') = Some (ex_state, Answer0 EINVAL) \<and>
   vfs_walk ex_env ex_state (- 1) 12 (EOK, ''/a'') = Some (ex_state, Answer0 EINVAL) \<and>
   vfs_walk ex_env ex_state (- 1) 16 (EOK, ''/a'') = Some (ex_state, Answer0 EINVAL) \<and>
   walk_flags_valid ex_env 5"
  using walk_flags_checked_first [of 3 ex_env ex_state "- 1" "(EOK, ''/a'')"]
    walk_flags_checked_first [of 1 ex_env ex_state "- 1" "(EOK, ''/a'')"]
    walk_flags_checked_first [of 12 ex_env ex_state "- 1" "(EOK, ''/a'')"]
    walk_flags_checked_first [of 16 ex_env ex_state "- 1" "(EOK, ''/a'')"]
    walk_flags_checked_first [of 5 ex_env ex_state "- 1" "(EOK, ''/a'')"]
  by (simp add: ex_env_def)

section \<open>Opening a descriptor\<close>

text \<open>The mode bits that the open file at an address holds, \<^verbatim>\<open>open_read\<close>, \<^verbatim>\<open>open_write\<close>
  and \<^verbatim>\<open>append\<close>, and a second concrete state: descriptor 0 on a directory, not yet opened.\<close>

definition mode_bits :: "'b vfs_state \<Rightarrow> nat \<Rightarrow> (bool \<times> bool \<times> bool) option" where
  "mode_bits st a = map_option (\<lambda>f. (open_read f, open_write f, append_flag f)) (files st a)"

definition ex_dir_file :: vfs_file where
  "ex_dir_file = \<lparr>node = Some \<lparr>fs_handle = 1, service_id = 7, index = 0\<rparr>, permissions = 7,
     open_read = False, open_write = False, append_flag = False, pos = 0, file_refcnt = 1\<rparr>"

definition ex_dir_state :: "unit vfs_state" where
  "ex_dir_state = \<lparr>fds = [0 \<mapsto> 0], files = [0 \<mapsto> ex_dir_file], next_file = 1,
     nodes = [(\<lparr>fs_handle = 1, service_id = 7, index = 0\<rparr>,
        \<lparr>refcnt = 2, node_type = VFS_NODE_DIRECTORY, node_size = 0\<rparr>)],
     root = Some \<lparr>fs_handle = 1, service_id = 7, index = 0\<rparr>, mtab_list = [], backend = (), trace = []\<rparr>"

lemma vfs_file_put_store2:
  "vfs_file_put (store_file st a (f\<lparr>file_refcnt := Suc n\<rparr>)) a =
     st\<lparr>files := (files st)(a \<mapsto> f\<lparr>file_refcnt := n\<rparr>)\<rparr>"
  by (simp add: vfs_file_put_def store_file_def)

lemma request_files:
  "request E (st\<lparr>files := x\<rparr>) req =
     (fst (request E st req), (snd (request E st req))\<lparr>files := x\<rparr>)"
  by (simp add: request_def split_beta)

lemma vfs_file_put_upd:
  "vfs_file_put (S\<lparr>files := m(a \<mapsto> g)\<rparr>) a =
     S\<lparr>files := m(a \<mapsto> g\<lparr>file_refcnt := file_refcnt g - 1\<rparr>)\<rparr>"
  by (simp add: vfs_file_put_def)

lemma put_after_request:
  "vfs_file_put ((snd (request E st req))\<lparr>files := (files st)(a \<mapsto> f\<lparr>file_refcnt := Suc n\<rparr>)\<rparr>) a =
     (snd (request E st req))\<lparr>files := (files st)(a \<mapsto> f\<lparr>file_refcnt := n\<rparr>)\<rparr>"
  by (simp add: vfs_file_put_def)

lemma open2_unfold:
  assumes "fds st fd = Some a" and "files st a = Some f"
  shows "vfs_open2 E st fd flags =
     (if flags = 0 then Some (st, Answer0 EINVAL)
      else if flags AND NOT (permissions f) \<noteq> 0 then Some (st, Answer0 EPERM)
      else
        (let f1 = f\<lparr>open_read := flags AND MODE_READ E \<noteq> 0,
                     open_write := flags AND (MODE_WRITE E OR MODE_APPEND E) \<noteq> 0,
                     append_flag := flags AND MODE_APPEND E \<noteq> 0\<rparr>
         in if \<not> open_read f1 \<and> \<not> open_write f1
            then Some (st\<lparr>files := (files st)(a \<mapsto> f1)\<rparr>, Answer0 EINVAL)
            else
              (case node f of
                 None \<Rightarrow> None
               | Some t \<Rightarrow>
                   (case deref_node st (node f) of
                      None \<Rightarrow> None
                    | Some n \<Rightarrow>
                        if node_type n = VFS_NODE_DIRECTORY \<and> open_write f1
                        then Some (st\<lparr>files := (files st)(a \<mapsto> f1\<lparr>open_read := False, open_write := False\<rparr>)\<rparr>,
                                   Answer0 EINVAL)
                        else
                          (let r = fst (request E st (OUT_OPEN_NODE t));
                               st3 = snd (request E st (OUT_OPEN_NODE t))
                           in if rc r \<noteq> EOK
                              then Some (st3\<lparr>files := (files st)(a \<mapsto> f1\<lparr>open_read := False, open_write := False\<rparr>)\<rparr>,
                                         Answer0 (rc r))
                              else Some (st3\<lparr>files := (files st)(a \<mapsto> f1)\<rparr>, Answer0 EOK))))))"
proof -
  have triv: "(files st)(a \<mapsto> f) = files st"
    using assms(2) by (rule map_upd_triv)
  show ?thesis
    using assms
    by (simp add: vfs_open2_def vfs_file_get_Some Let_def vfs_file_put_upd
        store_file_def vfs_open_node_remote_def request_files split_beta triv
        split: option.splits)
qed


lemma mode_bits_upd [simp]:
  "mode_bits (S\<lparr>files := m(a \<mapsto> g)\<rparr>) a = Some (open_read g, open_write g, append_flag g)"
  by (simp add: mode_bits_def)

lemma no_write_no_append:
  fixes flags :: cint
  assumes "flags AND (w OR ap) = 0"
  shows "flags AND ap = 0"
proof -
  have "flags AND ap = (flags AND (w OR ap)) AND ap"
    by (rule bit_eqI) (auto simp: bit_and_iff bit_or_iff)
  with assms show ?thesis by simp
qed

lemma ex_env_modes: "MODE_READ ex_env = 1" "MODE_WRITE ex_env = 2" "MODE_APPEND ex_env = 4"
  by (simp_all add: ex_env_def)

lemma ex_env_request: "fst (request ex_env st req) = ok_reply"
  by (simp add: request_def ex_env_def)

lemma ex_dir_facts:
  "fds ex_dir_state 0 = Some 0" "files ex_dir_state 0 = Some ex_dir_file"
  "permissions ex_dir_file = 7"
  "node ex_dir_file = Some \<lparr>fs_handle = 1, service_id = 7, index = 0\<rparr>"
  "deref_node ex_dir_state (Some \<lparr>fs_handle = 1, service_id = 7, index = 0\<rparr>) =
     Some \<lparr>refcnt = 2, node_type = VFS_NODE_DIRECTORY, node_size = 0\<rparr>"
  by (simp_all add: ex_dir_state_def ex_dir_file_def deref_node_def)

text \<open>
  C4, as stated, fails: not only on success are mode bits latched into the descriptor. The
  append bit of the mode is stored in the descriptor before the directory test and is not
  reset when the open is refused. On a descriptor on a directory that holds no mode bit,
  an open for writing and appending is refused with \<^verbatim>\<open>EINVAL\<close>, and the descriptor holds
  the append bit afterwards.
\<close>

theorem open2_failure_counterexample:
  "mode_bits ex_dir_state 0 = Some (False, False, False) \<and>
   vfs_open2 ex_env ex_dir_state 0 6 =
     Some (ex_dir_state\<lparr>files := [0 \<mapsto> ex_dir_file\<lparr>append_flag := True\<rparr>]\<rparr>, Answer0 EINVAL) \<and>
   mode_bits (ex_dir_state\<lparr>files := [0 \<mapsto> ex_dir_file\<lparr>append_flag := True\<rparr>]\<rparr>) 0 =
     Some (False, False, True)"
proof -
  have hd: "fds ex_dir_state 0 = Some 0" "files ex_dir_state 0 = Some ex_dir_file"
    by (simp_all add: ex_dir_state_def)
  have 1: "mode_bits ex_dir_state 0 = Some (False, False, False)"
    by (simp add: mode_bits_def ex_dir_state_def ex_dir_file_def)
  have 2: "vfs_open2 ex_env ex_dir_state 0 6 =
     Some (ex_dir_state\<lparr>files := [0 \<mapsto> ex_dir_file\<lparr>append_flag := True\<rparr>]\<rparr>, Answer0 EINVAL)"
    by (simp add: open2_unfold [OF hd] Let_def ex_dir_facts ex_env_modes)
      (simp add: ex_dir_state_def ex_dir_file_def)
  have 3: "mode_bits (ex_dir_state\<lparr>files := [0 \<mapsto> ex_dir_file\<lparr>append_flag := True\<rparr>]\<rparr>) 0 =
     Some (False, False, True)"
    by (simp add: ex_dir_file_def)
  from 1 2 3 show ?thesis by simp
qed

text \<open>
  C4, amended. For every allocated descriptor and mode word: \<^verbatim>\<open>vfs_open2\<close> answers
  \<^verbatim>\<open>EPERM\<close> when the mode has a bit outside the permissions of the descriptor, and
  leaves the state as it was; it answers \<^verbatim>\<open>EINVAL\<close> when the mode is within the
  permissions and asks neither for reading nor for writing or appending, and then the
  state is as it was or the descriptor holds no mode bit; it answers \<^verbatim>\<open>EINVAL\<close> when the
  mode is within the permissions, asks for writing or appending and the node is a
  directory, and then \<^verbatim>\<open>open_read\<close> and \<^verbatim>\<open>open_write\<close> are false and \<^verbatim>\<open>append\<close> is the
  append bit of the mode. After any failed open either nothing has changed, or
  \<^verbatim>\<open>open_read\<close> and \<^verbatim>\<open>open_write\<close> are both false and \<^verbatim>\<open>append\<close> is the append bit of the
  mode; so \<^verbatim>\<open>open_read\<close> and \<^verbatim>\<open>open_write\<close> remain false on a descriptor that was not
  open. After a successful open the three mode bits of the descriptor are the read bit, the
  write-or-append bit and the append bit of the mode.
\<close>

theorem open2_validation:
  assumes "fds st fd = Some a" and "files st a = Some f"
  shows "(flags AND NOT (permissions f) \<noteq> 0 \<longrightarrow>
            vfs_open2 E st fd flags = Some (st, Answer0 EPERM)) \<and>
         (flags AND NOT (permissions f) = 0 \<and> flags AND MODE_READ E = 0 \<and>
          flags AND (MODE_WRITE E OR MODE_APPEND E) = 0 \<longrightarrow>
            (\<exists>st'. vfs_open2 E st fd flags = Some (st', Answer0 EINVAL) \<and>
               (st' = st \<or> mode_bits st' a = Some (False, False, False)))) \<and>
         (flags AND NOT (permissions f) = 0 \<and> flags AND (MODE_WRITE E OR MODE_APPEND E) \<noteq> 0 \<and>
          map_option node_type (deref_node st (node f)) = Some VFS_NODE_DIRECTORY \<longrightarrow>
            (\<exists>st'. vfs_open2 E st fd flags = Some (st', Answer0 EINVAL) \<and>
               mode_bits st' a = Some (False, False, flags AND MODE_APPEND E \<noteq> 0))) \<and>
         (\<forall>st' ans. vfs_open2 E st fd flags = Some (st', ans) \<longrightarrow>
            (if retval ans = EOK
             then mode_bits st' a =
                    Some (flags AND MODE_READ E \<noteq> 0, flags AND (MODE_WRITE E OR MODE_APPEND E) \<noteq> 0,
                          flags AND MODE_APPEND E \<noteq> 0)
             else st' = st \<or> mode_bits st' a = Some (False, False, flags AND MODE_APPEND E \<noteq> 0)))"
proof (intro conjI impI allI)
  assume "flags AND NOT (permissions f) \<noteq> 0"
  moreover from this have "flags \<noteq> 0" by auto
  ultimately show "vfs_open2 E st fd flags = Some (st, Answer0 EPERM)"
    by (simp add: open2_unfold [OF assms])
next
  assume h: "flags AND NOT (permissions f) = 0 \<and> flags AND MODE_READ E = 0 \<and>
          flags AND (MODE_WRITE E OR MODE_APPEND E) = 0"
  then have "flags AND MODE_APPEND E = 0" by (blast intro: no_write_no_append)
  with h show "\<exists>st'. vfs_open2 E st fd flags = Some (st', Answer0 EINVAL) \<and>
               (st' = st \<or> mode_bits st' a = Some (False, False, False))"
    by (simp add: open2_unfold [OF assms] Let_def)
next
  assume h: "flags AND NOT (permissions f) = 0 \<and> flags AND (MODE_WRITE E OR MODE_APPEND E) \<noteq> 0 \<and>
          map_option node_type (deref_node st (node f)) = Some VFS_NODE_DIRECTORY"
  then obtain n where n: "deref_node st (node f) = Some n" "node_type n = VFS_NODE_DIRECTORY"
    by auto
  then obtain t where t: "node f = Some t"
    by (cases "node f") (simp_all add: deref_node_def)
  from h have "flags \<noteq> 0" by auto
  with h n t show "\<exists>st'. vfs_open2 E st fd flags = Some (st', Answer0 EINVAL) \<and>
               mode_bits st' a = Some (False, False, flags AND MODE_APPEND E \<noteq> 0)"
    by (simp add: open2_unfold [OF assms] Let_def)
next
  fix st' ans
  assume "vfs_open2 E st fd flags = Some (st', ans)"
  then show "if retval ans = EOK
             then mode_bits st' a =
                    Some (flags AND MODE_READ E \<noteq> 0, flags AND (MODE_WRITE E OR MODE_APPEND E) \<noteq> 0,
                          flags AND MODE_APPEND E \<noteq> 0)
             else st' = st \<or> mode_bits st' a = Some (False, False, flags AND MODE_APPEND E \<noteq> 0)"
    unfolding open2_unfold [OF assms] Let_def
    by (auto split: if_splits option.splits dest: no_write_no_append)
qed

text \<open>On the descriptor on a directory: a mode outside the permissions, the empty mode, a
  mode with the write bit, a mode with the write and append bits, and a successful open
  for reading. On the descriptor on a regular file: a successful open for reading and
  appending.\<close>

theorem open2_validation_witness:
  "fds ex_dir_state 0 = Some 0 \<and> files ex_dir_state 0 = Some ex_dir_file \<and>
   fds ex_state 0 = Some 0 \<and> files ex_state 0 = Some ex_file \<and>
   vfs_open2 ex_env ex_dir_state 0 8 = Some (ex_dir_state, Answer0 EPERM) \<and>
   (\<exists>st'. vfs_open2 ex_env ex_dir_state 0 0 = Some (st', Answer0 EINVAL) \<and>
      (st' = ex_dir_state \<or> mode_bits st' 0 = Some (False, False, False))) \<and>
   (\<exists>st'. vfs_open2 ex_env ex_dir_state 0 3 = Some (st', Answer0 EINVAL) \<and>
      mode_bits st' 0 = Some (False, False, False)) \<and>
   (\<exists>st'. vfs_open2 ex_env ex_dir_state 0 6 = Some (st', Answer0 EINVAL) \<and>
      mode_bits st' 0 = Some (False, False, True)) \<and>
   (\<exists>st'. vfs_open2 ex_env ex_dir_state 0 1 = Some (st', Answer0 EOK) \<and>
      mode_bits st' 0 = Some (True, False, False)) \<and>
   (\<exists>st'. vfs_open2 ex_env ex_state 0 5 = Some (st', Answer0 EOK) \<and>
      mode_bits st' 0 = Some (True, True, True))"
proof -
  have h: "fds ex_dir_state 0 = Some 0" "files ex_dir_state 0 = Some ex_dir_file"
    by (simp_all add: ex_dir_state_def)
  have g: "fds ex_state 0 = Some 0" "files ex_state 0 = Some ex_file"
    by (simp_all add: ex_state_def)
  have d: "map_option node_type (deref_node ex_dir_state (node ex_dir_file)) = Some VFS_NODE_DIRECTORY"
    by (simp add: ex_dir_state_def ex_dir_file_def deref_node_def)
  have p: "permissions ex_dir_file = 7" by (simp add: ex_dir_file_def)
  have ok: "\<exists>st'. vfs_open2 ex_env ex_dir_state 0 1 = Some (st', Answer0 EOK)"
    by (simp add: open2_unfold [OF h] Let_def ex_dir_facts ex_env_modes ex_env_request ok_reply_def)
  then obtain st' where st': "vfs_open2 ex_env ex_dir_state 0 1 = Some (st', Answer0 EOK)" ..
  have "mode_bits st' 0 = Some (True, False, False)"
    using open2_validation [OF h, of 1 ex_env] st' by (simp add: ex_env_modes)
  with st' have 4: "\<exists>st'. vfs_open2 ex_env ex_dir_state 0 1 = Some (st', Answer0 EOK) \<and>
      mode_bits st' 0 = Some (True, False, False)" by blast
  have gf: "permissions ex_file = 7"
    "node ex_file = Some \<lparr>fs_handle = 1, service_id = 7, index = 3\<rparr>"
    "deref_node ex_state (Some \<lparr>fs_handle = 1, service_id = 7, index = 3\<rparr>) =
       Some \<lparr>refcnt = 1, node_type = VFS_NODE_FILE, node_size = 10\<rparr>"
    by (simp_all add: ex_state_def ex_file_def deref_node_def)
  have "\<exists>st'. vfs_open2 ex_env ex_state 0 5 = Some (st', Answer0 EOK)"
    by (simp add: open2_unfold [OF g] Let_def gf ex_env_modes ex_env_request ok_reply_def)
  then obtain st'' where st'': "vfs_open2 ex_env ex_state 0 5 = Some (st'', Answer0 EOK)" ..
  have "mode_bits st'' 0 = Some (True, True, True)"
    using open2_validation [OF g, of 5 ex_env] st'' by (simp add: ex_env_modes)
  with st'' have 5: "\<exists>st'. vfs_open2 ex_env ex_state 0 5 = Some (st', Answer0 EOK) \<and>
      mode_bits st' 0 = Some (True, True, True)" by blast
  show ?thesis
    using open2_validation [OF h, of 8 ex_env] open2_validation [OF h, of 0 ex_env]
      open2_validation [OF h, of 3 ex_env] open2_validation [OF h, of 6 ex_env] h g d 4 5
    by (simp add: p ex_env_modes)
qed

section \<open>Dup, unlink and unmount\<close>

text \<open>\<^verbatim>\<open>vfs_dup\<close>.\<close>

definition vfs_dup :: "'b vfs_env \<Rightarrow> 'b vfs_state \<Rightarrow> int \<Rightarrow> int \<Rightarrow> ('b vfs_state \<times> answer) option" where
  "vfs_dup E st oldfd newfd =
     (if oldfd = newfd then Some (st, Answer1 EOK (word_of_int newfd))
      else
        (case vfs_file_get st oldfd of
           None \<Rightarrow> Some (st, Answer0 EBADF)
         | Some (a, oldfile, st1) \<Rightarrow>
             (let st2 = snd (vfs_fd_free E st1 newfd);
                  (ret, st3) = vfs_fd_assign E st2 a newfd;
                  st4 = vfs_file_put st3 a
              in if ret \<noteq> EOK then Some (st4, Answer0 ret)
                 else Some (st4, Answer1 EOK (word_of_int newfd)))))"

text \<open>\<^verbatim>\<open>__builtin_memcmp(&lr.triplet, expect->node, sizeof(vfs_triplet_t))\<close> compares the
  bytes of a \<^verbatim>\<open>vfs_triplet_t\<close> on the stack with the first bytes of a \<^verbatim>\<open>vfs_node_t\<close>, which
  begins with the same three fields. The bytes compared are those of the three fields and
  the remaining bytes of the structure: padding in the lookup result, and in the node
  padding or whatever follows \<^verbatim>\<open>index\<close>. The layout is in \<^verbatim>\<open>vfs.h\<close>, which is not among the
  sources, and the padding of an automatic variable is indeterminate; so whether the
  remaining bytes agree is an argument \<open>rest_equal\<close> of the model. \<open>triplet_memcmp\<close> is true
  when the comparison returns 0: the three fields are equal and the remaining bytes
  agree.\<close>

definition triplet_memcmp :: "bool \<Rightarrow> vfs_triplet \<Rightarrow> vfs_triplet \<Rightarrow> bool" where
  "triplet_memcmp rest_equal x y =
     (fs_handle x = fs_handle y \<and> service_id x = service_id y \<and> index x = index y \<and> rest_equal)"

text \<open>\<^verbatim>\<open>vfs_unlink2\<close>. \<open>unlink_exit\<close> is the code at the label \<^verbatim>\<open>exit\<close>; \<open>unlink_from\<close> is
  the handler from the test of \<^verbatim>\<open>expectfd\<close> on, with the parent resolved. A null node
  pointer in the expected file makes the comparison undefined.\<close>

definition unlink_exit ::
  "'b vfs_state \<Rightarrow> nat option \<Rightarrow> nat option \<Rightarrow> errno \<Rightarrow> ('b vfs_state \<times> answer) option" where
  "unlink_exit st parent expect r = Some (put_parent (put_parent st parent) expect, Answer0 r)"

definition unlink_final ::
  "'b vfs_env \<Rightarrow> 'b vfs_state \<Rightarrow> nat option \<Rightarrow> vfs_triplet option \<Rightarrow> cint \<Rightarrow> string \<Rightarrow>
     ('b vfs_state \<times> answer) option" where
  "unlink_final E st parent parent_node lflag path =
     (let (r, st1) = vfs_lookup_internal E st parent_node path (lflag OR L_UNLINK E) in
      if rc r \<noteq> EOK then unlink_exit st1 parent None (rc r)
      else
        (let (nd, st2) = vfs_node_get st1 (lres r) in
         case nd of
           None \<Rightarrow> None
         | Some t \<Rightarrow> unlink_exit (vfs_node_put E st2 t) parent None (rc r)))"

definition unlink_from ::
  "'b vfs_env \<Rightarrow> 'b vfs_state \<Rightarrow> nat option \<Rightarrow> vfs_triplet option \<Rightarrow> int \<Rightarrow> cint \<Rightarrow> string \<Rightarrow>
     bool \<Rightarrow> ('b vfs_state \<times> answer) option" where
  "unlink_from E st parent parent_node expectfd lflag path rest_equal =
     (if 0 \<le> expectfd then
        (case vfs_file_get st expectfd of
           None \<Rightarrow> unlink_exit st parent None ENOENT
         | Some (ea, expect, st1) \<Rightarrow>
             (let (r, st2) = vfs_lookup_internal E st1 parent_node path lflag in
              if rc r \<noteq> EOK then unlink_exit st2 parent (Some ea) (rc r)
              else
                (case node expect of
                   None \<Rightarrow> None
                 | Some et \<Rightarrow>
                     if \<not> triplet_memcmp rest_equal (triplet (lres r)) et
                     then unlink_exit st2 parent (Some ea) ENOENT
                     else unlink_final E (vfs_file_put st2 ea) parent parent_node lflag path)))
      else unlink_final E st parent parent_node lflag path)"

definition vfs_unlink2 ::
  "'b vfs_env \<Rightarrow> 'b vfs_state \<Rightarrow> int \<Rightarrow> int \<Rightarrow> cint \<Rightarrow> errno \<times> string \<Rightarrow> bool \<Rightarrow>
     ('b vfs_state \<times> answer) option" where
  "vfs_unlink2 E st parentfd expectfd wflag accepted rest_equal =
     (if fst accepted \<noteq> EOK then Some (st, Answer0 (fst accepted))
      else
        (let lflag = (if wflag AND WALK_DIRECTORY E \<noteq> 0 then L_DIRECTORY E else 0) in
         if 0 \<le> parentfd then
           (case vfs_file_get st parentfd of
              None \<Rightarrow> unlink_exit st None None ENOENT
            | Some (pa, parent, st1) \<Rightarrow>
                unlink_from E st1 (Some pa) (node parent) expectfd lflag (snd accepted) rest_equal)
         else unlink_from E st None (root st) expectfd lflag (snd accepted) rest_equal))"

text \<open>\<^verbatim>\<open>vfs_unmount\<close>. When the mount point path cannot be received the handler answers
  but does not return, and goes on with an uninitialised \<^verbatim>\<open>mp\<close>: undefined. The final
  \<^verbatim>\<open>assert(found)\<close> fails when no entry of the mount table has the path.\<close>

fun mtab_remove :: "string \<Rightarrow> mtab_ent list \<Rightarrow> mtab_ent list option" where
  "mtab_remove p [] = None"
| "mtab_remove p (e # es) =
     (if mp e = p then Some es else map_option (\<lambda>r. e # r) (mtab_remove p es))"

definition unmount_finish ::
  "'b vfs_state \<Rightarrow> vfs_triplet \<Rightarrow> string \<Rightarrow> ('b vfs_state \<times> answer) option" where
  "unmount_finish st mr_node p =
     (let st1 = vfs_node_forget st mr_node in
      case mtab_remove p (mtab_list st1) of
        None \<Rightarrow> None
      | Some es \<Rightarrow> Some (st1\<lparr>mtab_list := es\<rparr>, Answer0 EOK))"

definition vfs_unmount ::
  "'b vfs_env \<Rightarrow> 'b vfs_state \<Rightarrow> errno \<times> string \<Rightarrow> ('b vfs_state \<times> answer) option" where
  "vfs_unmount E st accepted =
     (if fst accepted \<noteq> EOK then None
      else
        (let p = snd accepted;
             (r, st1) = vfs_lookup_internal E st (root st) p 0
         in if rc r \<noteq> EOK then Some (st1, Answer0 (rc r))
            else
              (let (nd, st2) = vfs_node_get st1 (lres r) in
               case nd of
                 None \<Rightarrow> Some (st2, Answer0 ENOMEM)
               | Some mr_node \<Rightarrow>
                   if vfs_nodes_refcount_sum_get st2 (fs_handle mr_node) (service_id mr_node) \<noteq> 2
                   then Some (vfs_node_put E st2 mr_node, Answer0 EBUSY)
                   else if p = ''/'' then
                     (let (u, st3) =
                        request E st2 (OUT_UNMOUNTED (fs_handle mr_node) (service_id mr_node))
                      in if rc u \<noteq> EOK then Some (vfs_node_put E st3 mr_node, Answer0 (rc u))
                         else unmount_finish (st3\<lparr>root := None\<rparr>) mr_node p)
                   else
                     (let (m, st3) = vfs_lookup_internal E st2 (root st2) p (L_MP E) in
                      if rc m \<noteq> EOK then Some (vfs_node_put E st3 mr_node, Answer0 (rc m))
                      else
                        (let (mpn, st4) = vfs_node_get st3 (lres m) in
                         case mpn of
                           None \<Rightarrow> Some (vfs_node_put E st4 mr_node, Answer0 ENOMEM)
                         | Some mp_node \<Rightarrow>
                             (let (u, st5) =
                                request E st4
                                  (OUT_UNMOUNT (fs_handle mp_node) (service_id mp_node) (index mp_node))
                              in if rc u \<noteq> EOK
                                 then Some (vfs_node_put E (vfs_node_put E st5 mp_node) mr_node,
                                            Answer0 (rc u))
                                 else unmount_finish
                                        (vfs_node_put E (vfs_node_put E st5 mp_node) mp_node)
                                        mr_node p))))))"

section \<open>Duplicating a descriptor onto itself\<close>

text \<open>
  C10. \<^verbatim>\<open>dup(old_fd, new_fd)\<close> with \<open>old_fd = new_fd\<close> answers \<^verbatim>\<open>EOK\<close> with \<open>new_fd\<close>
  and changes nothing in the state of the broker, whether or not that descriptor is
  allocated; the lookup in the descriptor table and its \<^verbatim>\<open>EBADF\<close> are reached only when
  the two descriptors differ.
\<close>

theorem dup_same_fd:
  "vfs_dup E st fd fd = Some (st, Answer1 EOK (word_of_int fd)) \<and>
   (oldfd \<noteq> newfd \<and> vfs_file_get st oldfd = None \<longrightarrow>
      vfs_dup E st oldfd newfd = Some (st, Answer0 EBADF))"
  by (simp add: vfs_dup_def)

theorem dup_same_fd_witness:
  "fds ex_state 3 = None \<and>
   vfs_dup ex_env ex_state 3 3 = Some (ex_state, Answer1 EOK 3) \<and>
   vfs_dup ex_env ex_state 3 2 = Some (ex_state, Answer0 EBADF)"
proof -
  have n: "fds ex_state 3 = None" by (simp add: ex_state_def)
  then have g: "vfs_file_get ex_state 3 = None" by (simp add: vfs_file_get_def)
  show ?thesis
    using dup_same_fd [of ex_env ex_state 3 3 2] n g by simp
qed

section \<open>Unmounting a file system in use\<close>

lemma refcount_sum_update:
  assumes "fs_handle t = h" and "service_id t = s"
    and "refcnt v = (case map_of xs t of None \<Rightarrow> 1 | Some n \<Rightarrow> refcnt n + 1)"
  shows "sum_list (map (\<lambda>(t, n). refcnt n)
           (filter (\<lambda>(t, n). fs_handle t = h \<and> service_id t = s) (AList.update t v xs))) =
         sum_list (map (\<lambda>(t, n). refcnt n)
           (filter (\<lambda>(t, n). fs_handle t = h \<and> service_id t = s) xs)) + 1"
  using assms
proof (induction xs)
  case Nil
  then show ?case by simp
next
  case (Cons x xs)
  obtain k n where x: "x = (k, n)" by (cases x)
  show ?case
  proof (cases "k = t")
    case True
    with Cons.prems x show ?thesis by simp
  next
    case False
    with Cons.prems x have "refcnt v = (case map_of xs t of None \<Rightarrow> 1 | Some n \<Rightarrow> refcnt n + 1)"
      by simp
    from Cons.IH [OF Cons.prems(1,2) this] False x show ?thesis by simp
  qed
qed


lemma vfs_node_get_sum:
  "vfs_nodes_refcount_sum_get (snd (vfs_node_get st lr)) (fs_handle (triplet lr)) (service_id (triplet lr))
     = vfs_nodes_refcount_sum_get st (fs_handle (triplet lr)) (service_id (triplet lr)) + 1"
proof (cases "map_of (nodes st) (triplet lr)")
  case None
  then show ?thesis
    by (simp add: vfs_nodes_refcount_sum_get_def vfs_node_get_def refcount_sum_update)
next
  case (Some n)
  then show ?thesis
    by (simp add: vfs_nodes_refcount_sum_get_def vfs_node_get_def refcount_sum_update)
qed

lemma delete_update_fresh:
  "map_of xs k = None \<Longrightarrow> AList.delete k (AList.update k v xs) = xs"
proof (induction xs)
  case Nil
  then show ?case by (simp add: AList.delete_eq)
next
  case (Cons x xs)
  then show ?case by (cases x) (simp add: AList.delete_eq split: if_splits)
qed

lemma vfs_node_put_get:
  assumes "\<forall>n. map_of (nodes st) (triplet lr) = Some n \<longrightarrow> 0 < refcnt n"
  shows "nodes (vfs_node_put E (snd (vfs_node_get st lr)) (triplet lr)) = nodes st"
proof (cases "map_of (nodes st) (triplet lr)")
  case None
  then show ?thesis
    by (simp add: vfs_node_put_def vfs_node_get_def AList.update_conv' delete_update_fresh)
next
  case (Some n)
  with assms have "0 < refcnt n" by simp
  with Some show ?thesis
    by (simp add: vfs_node_put_def vfs_node_get_def AList.update_conv' AList.update_triv)
qed


lemma request_eq:
  "fs E req (backend st) = (r, b) \<Longrightarrow>
   request E st req = (r, st\<lparr>backend := b, trace := trace st @ [req]\<rparr>)"
  by (simp add: request_def)

lemma vfs_node_get_put_cached:
  assumes "map_of (nodes st) (triplet lr) = Some n" and "0 < refcnt n"
  shows "vfs_node_put E (snd (vfs_node_get st lr)) (triplet lr) = st"
  using assms
  by (simp add: vfs_node_put_def vfs_node_get_def AList.update_conv' AList.update_triv)

definition root_reply :: fs_reply where
  "root_reply = \<lparr>rc = EOK,
     lres = \<lparr>triplet = \<lparr>fs_handle = 1, service_id = 7, index = 0\<rparr>, lr_size = 0,
              lr_type = VFS_NODE_DIRECTORY\<rparr>,
     arg1 = 0, arg2 = 0, arg3 = 0\<rparr>"

definition ex_root_env :: "unit vfs_env" where
  "ex_root_env = ex_env\<lparr>fs := (\<lambda>req b. (root_reply, b))\<rparr>"

text \<open>
  C7. Let the mount point path resolve to a node that is in the node cache with at least
  one reference (the mounted root with its mount reference), and let the reference counts
  of the cached nodes of that file system sum to more than 2 once the handler has taken
  its own reference on the node. Then \<^verbatim>\<open>vfs_unmount\<close> answers \<^verbatim>\<open>EBUSY\<close>; the only request
  that went out is the lookup of the path, so no \<^verbatim>\<open>UNMOUNT\<close> or \<^verbatim>\<open>UNMOUNTED\<close> reaches a
  server; and the mount table, the root, the cached nodes with their reference counts and
  the descriptors are as they were.
\<close>

theorem unmount_busy:
  assumes "fst accepted = EOK"
    and "fs E (OUT_LOOKUP (root st) (snd accepted) 0) (backend st) = (r, b)"
    and "rc r = EOK"
    and "map_of (nodes st) (triplet (lres r)) = Some n" and "0 < refcnt n"
    and "2 < vfs_nodes_refcount_sum_get st (fs_handle (triplet (lres r)))
               (service_id (triplet (lres r))) + 1"
  shows "vfs_unmount E st accepted =
           Some (st\<lparr>backend := b, trace := trace st @ [OUT_LOOKUP (root st) (snd accepted) 0]\<rparr>,
                 Answer0 EBUSY)"
proof -
  let ?st1 = "st\<lparr>backend := b, trace := trace st @ [OUT_LOOKUP (root st) (snd accepted) 0]\<rparr>"
  let ?t = "triplet (lres r)"
  have l: "vfs_lookup_internal E st (root st) (snd accepted) 0 = (r, ?st1)"
    using assms(2) by (simp add: vfs_lookup_internal_def request_eq)
  have c: "map_of (nodes ?st1) ?t = Some n" using assms(4) by simp
  obtain nd st2 where g: "vfs_node_get ?st1 (lres r) = (nd, st2)"
    by (cases "vfs_node_get ?st1 (lres r)")
  then have nd: "nd = Some ?t" and st2: "st2 = snd (vfs_node_get ?st1 (lres r))"
    using vfs_node_get_frame(7) [of ?st1 "lres r"] by simp_all
  have "vfs_nodes_refcount_sum_get st2 (fs_handle ?t) (service_id ?t) =
      vfs_nodes_refcount_sum_get ?st1 (fs_handle ?t) (service_id ?t) + 1"
    unfolding st2 by (rule vfs_node_get_sum)
  also have "vfs_nodes_refcount_sum_get ?st1 (fs_handle ?t) (service_id ?t) =
      vfs_nodes_refcount_sum_get st (fs_handle ?t) (service_id ?t)"
    by (simp add: vfs_nodes_refcount_sum_get_def)
  finally have busy: "vfs_nodes_refcount_sum_get st2 (fs_handle ?t) (service_id ?t) \<noteq> 2"
    using assms(6) by simp
  have put: "vfs_node_put E st2 ?t = ?st1"
    unfolding st2 using c assms(5) by (rule vfs_node_get_put_cached)
  show ?thesis
    using assms(1,3) l g nd busy put
    by (simp add: vfs_unmount_def Let_def)
qed


theorem unmount_busy_witness:
  "fs ex_root_env (OUT_LOOKUP (root ex_dir_state) ''/'' 0) (backend ex_dir_state) = (root_reply, ()) \<and>
   rc root_reply = EOK \<and>
   map_of (nodes ex_dir_state) (triplet (lres root_reply)) =
     Some \<lparr>refcnt = 2, node_type = VFS_NODE_DIRECTORY, node_size = 0\<rparr> \<and>
   vfs_nodes_refcount_sum_get ex_dir_state 1 7 = 2 \<and>
   vfs_unmount ex_root_env ex_dir_state (EOK, ''/'') =
     Some (ex_dir_state\<lparr>trace := [OUT_LOOKUP (root ex_dir_state) ''/'' 0]\<rparr>, Answer0 EBUSY)"
proof -
  have 1: "fst (EOK, ''/'') = EOK" by simp
  have 2: "fs ex_root_env (OUT_LOOKUP (root ex_dir_state) (snd (EOK, ''/'')) 0) (backend ex_dir_state)
     = (root_reply, ())" by (simp add: ex_root_env_def)
  have 3: "rc root_reply = EOK" by (simp add: root_reply_def)
  have 4: "map_of (nodes ex_dir_state) (triplet (lres root_reply)) =
     Some \<lparr>refcnt = 2, node_type = VFS_NODE_DIRECTORY, node_size = 0\<rparr>"
    by (simp add: ex_dir_state_def root_reply_def)
  have 5: "0 < refcnt \<lparr>refcnt = 2, node_type = VFS_NODE_DIRECTORY, node_size = 0\<rparr>" by simp
  have s: "vfs_nodes_refcount_sum_get ex_dir_state 1 7 = 2"
    by (simp add: vfs_nodes_refcount_sum_get_def ex_dir_state_def)
  have 6: "2 < vfs_nodes_refcount_sum_get ex_dir_state (fs_handle (triplet (lres root_reply)))
     (service_id (triplet (lres root_reply))) + 1"
    by (simp add: root_reply_def s)
  have e: "ex_dir_state\<lparr>backend := (), trace := trace ex_dir_state @ [OUT_LOOKUP (root ex_dir_state) ''/'' 0]\<rparr>
     = ex_dir_state\<lparr>trace := [OUT_LOOKUP (root ex_dir_state) ''/'' 0]\<rparr>"
    by (simp add: ex_dir_state_def)
  from unmount_busy [OF 1 2 3 4 5 6] 2 3 4 s e show ?thesis by simp
qed

section \<open>Unlinking an expected node\<close>


lemma unlink_final_trace:
  "\<exists>st' ans rest. unlink_final E st parent pn lflag path = Some (st', ans) \<and>
     trace st' = trace st @ OUT_LOOKUP pn path (lflag OR L_UNLINK E) # rest"
proof -
  obtain r st1 where l: "vfs_lookup_internal E st pn path (lflag OR L_UNLINK E) = (r, st1)"
    by (cases "vfs_lookup_internal E st pn path (lflag OR L_UNLINK E)")
  then have t1: "trace st1 = trace st @ [OUT_LOOKUP pn path (lflag OR L_UNLINK E)]"
    using request_trace [of E st "OUT_LOOKUP pn path (lflag OR L_UNLINK E)"]
    by (simp add: vfs_lookup_internal_def)
  show ?thesis
  proof (cases "rc r = EOK")
    case False
    with l t1 show ?thesis by (simp add: unlink_final_def unlink_exit_def)
  next
    case True
    obtain nd st2 where g: "vfs_node_get st1 (lres r) = (nd, st2)"
      by (cases "vfs_node_get st1 (lres r)")
    then have nd: "nd = Some (triplet (lres r))" and t2: "trace st2 = trace st1"
      using vfs_node_get_frame(1,7) [of st1 "lres r"] by simp_all
    from vfs_node_put_trace [of E st2 "triplet (lres r)"] l True g nd t1 t2
    show ?thesis by (auto simp: unlink_final_def unlink_exit_def)
  qed
qed

lemma triplet_memcmp_iff: "triplet_memcmp rest_equal x y = (x = y \<and> rest_equal)"
  by (cases x; cases y) (auto simp: triplet_memcmp_def)

lemma unlink_from_expect:
  assumes "0 \<le> expectfd" and "fds st expectfd = Some ea" and "files st ea = Some ef"
    and "node ef = Some et"
    and "fs E (OUT_LOOKUP pn path lflag) (backend st) = (r, b)"
  shows "\<exists>st' ans. unlink_from E st parent pn expectfd lflag path rest_equal = Some (st', ans) \<and>
     (if rc r \<noteq> EOK then ans = Answer0 (rc r) \<and> trace st' = trace st @ [OUT_LOOKUP pn path lflag]
      else if \<not> (triplet (lres r) = et \<and> rest_equal)
        then ans = Answer0 ENOENT \<and> trace st' = trace st @ [OUT_LOOKUP pn path lflag]
        else \<exists>rest. trace st' =
               trace st @ OUT_LOOKUP pn path lflag # OUT_LOOKUP pn path (lflag OR L_UNLINK E) # rest)"
proof -
  let ?ef = "ef\<lparr>file_refcnt := Suc (file_refcnt ef)\<rparr>"
  let ?st1 = "st\<lparr>files := (files st)(ea \<mapsto> ?ef)\<rparr>"
  let ?st2 = "?st1\<lparr>backend := b, trace := trace st @ [OUT_LOOKUP pn path lflag]\<rparr>"
  have get: "vfs_file_get st expectfd = Some (ea, ?ef, ?st1)"
    using assms(2,3) by (rule vfs_file_get_Some)
  have l: "vfs_lookup_internal E ?st1 pn path lflag = (r, ?st2)"
    using assms(5) by (simp add: vfs_lookup_internal_def request_eq)
  show ?thesis
  proof (cases "rc r = EOK \<and> triplet (lres r) = et \<and> rest_equal")
    case False
    then show ?thesis
      using assms(1,4) get l by (auto simp: unlink_from_def unlink_exit_def triplet_memcmp_iff)
  next
    case True
    from unlink_final_trace [of E "vfs_file_put ?st2 ea" parent pn lflag path]
    show ?thesis
      using True assms(1,4) get l by (auto simp: unlink_from_def triplet_memcmp_iff)
  qed
qed

text \<open>
  C8. For an unlink request that supplies \<open>expect_fd\<close> (an allocated descriptor with a
  node): the first request to the servers is the lookup of the path with the flags
  \<open>lflag\<close>, which do not contain \<^verbatim>\<open>L_UNLINK\<close>. When that lookup fails its error is the
  answer. When it succeeds, the looked-up triplet is compared byte by byte with the
  expected node: the comparison finds them equal when the three fields are equal and the
  remaining bytes of the structure agree. On a mismatch, which every difference in a field
  is, the answer is \<^verbatim>\<open>ENOENT\<close>. In both cases no further request is sent, so the unlinking
  lookup is not issued. Only on a match does the second request follow, the lookup of the
  same path with \<open>lflag | L_UNLINK\<close>.
\<close>

theorem unlink2_expect_checked:
  assumes "fst accepted = EOK"
    and "if 0 \<le> parentfd
         then \<exists>pa pf. fds st parentfd = Some pa \<and> files st pa = Some pf \<and> pn = node pf
         else pn = root st"
    and "0 \<le> expectfd" and "fds st expectfd = Some ea" and "files st ea = Some ef"
    and "node ef = Some et"
    and "L_DIRECTORY E AND L_UNLINK E = 0"
    and "lflag = (if wflag AND WALK_DIRECTORY E \<noteq> 0 then L_DIRECTORY E else 0)"
    and "fs E (OUT_LOOKUP pn (snd accepted) lflag) (backend st) = (r, b)"
  shows "lflag AND L_UNLINK E = 0 \<and>
     (\<exists>st' ans. vfs_unlink2 E st parentfd expectfd wflag accepted rest_equal = Some (st', ans) \<and>
        (if rc r \<noteq> EOK
         then ans = Answer0 (rc r) \<and> trace st' = trace st @ [OUT_LOOKUP pn (snd accepted) lflag]
         else if \<not> (triplet (lres r) = et \<and> rest_equal)
           then ans = Answer0 ENOENT \<and> trace st' = trace st @ [OUT_LOOKUP pn (snd accepted) lflag]
           else \<exists>rest. trace st' =
                  trace st @ OUT_LOOKUP pn (snd accepted) lflag #
                    OUT_LOOKUP pn (snd accepted) (lflag OR L_UNLINK E) # rest))"
proof
  show "lflag AND L_UNLINK E = 0" using assms(7,8) by simp
next
  show "\<exists>st' ans. vfs_unlink2 E st parentfd expectfd wflag accepted rest_equal = Some (st', ans) \<and>
        (if rc r \<noteq> EOK
         then ans = Answer0 (rc r) \<and> trace st' = trace st @ [OUT_LOOKUP pn (snd accepted) lflag]
         else if \<not> (triplet (lres r) = et \<and> rest_equal)
           then ans = Answer0 ENOENT \<and> trace st' = trace st @ [OUT_LOOKUP pn (snd accepted) lflag]
           else \<exists>rest. trace st' =
                  trace st @ OUT_LOOKUP pn (snd accepted) lflag #
                    OUT_LOOKUP pn (snd accepted) (lflag OR L_UNLINK E) # rest)"
  proof (cases "0 \<le> parentfd")
    case False
    with assms(2) have pn: "pn = root st" by simp
    have u: "vfs_unlink2 E st parentfd expectfd wflag accepted rest_equal =
        unlink_from E st None pn expectfd lflag (snd accepted) rest_equal"
      using False assms(1) pn by (simp add: vfs_unlink2_def assms(8))
    from unlink_from_expect [OF assms(3-6) assms(9), of None rest_equal]
    show ?thesis unfolding u .
  next
    case True
    with assms(2) obtain pa pf where p: "fds st parentfd = Some pa" "files st pa = Some pf"
      "pn = node pf" by auto
    let ?pf = "pf\<lparr>file_refcnt := Suc (file_refcnt pf)\<rparr>"
    let ?st1 = "st\<lparr>files := (files st)(pa \<mapsto> ?pf)\<rparr>"
    have get: "vfs_file_get st parentfd = Some (pa, ?pf, ?st1)"
      using p(1,2) by (rule vfs_file_get_Some)
    obtain ef' where e: "files ?st1 ea = Some ef'" "node ef' = Some et"
      using assms(5,6) p(2) by (cases "ea = pa") auto
    have f: "fds ?st1 expectfd = Some ea" using assms(4) by simp
    have b: "fs E (OUT_LOOKUP pn (snd accepted) lflag) (backend ?st1) = (r, b)"
      using assms(9) by simp
    have u: "vfs_unlink2 E st parentfd expectfd wflag accepted rest_equal =
        unlink_from E ?st1 (Some pa) pn expectfd lflag (snd accepted) rest_equal"
      using True assms(1) get p(3) by (simp add: vfs_unlink2_def assms(8))
    have t: "trace ?st1 = trace st" by simp
    from unlink_from_expect [OF assms(3) f e b, of "Some pa" rest_equal]
    show ?thesis unfolding u t .
  qed
qed

text \<open>On the descriptor on the directory \<open>(1, 7, 0)\<close>: a lookup that finds the node
  \<open>(1, 7, 3)\<close>, a mismatch in a field; a lookup that finds \<open>(1, 7, 0)\<close> with the remaining
  bytes differing, a mismatch; and the same lookup with all bytes equal, a match, after
  which the unlinking lookup is sent.\<close>

theorem unlink2_expect_checked_witness:
  "fds ex_dir_state 0 = Some 0 \<and> files ex_dir_state 0 = Some ex_dir_file \<and>
   node ex_dir_file = Some \<lparr>fs_handle = 1, service_id = 7, index = 0\<rparr> \<and>
   L_DIRECTORY ex_env AND L_UNLINK ex_env = 0 \<and> L_UNLINK ex_root_env = 16 \<and>
   fs ex_env (OUT_LOOKUP (root ex_dir_state) ''/a'' 0) (backend ex_dir_state) = (ok_reply, ()) \<and>
   triplet (lres ok_reply) = \<lparr>fs_handle = 1, service_id = 7, index = 3\<rparr> \<and>
   fs ex_root_env (OUT_LOOKUP (root ex_dir_state) ''/a'' 0) (backend ex_dir_state) = (root_reply, ()) \<and>
   triplet (lres root_reply) = \<lparr>fs_handle = 1, service_id = 7, index = 0\<rparr> \<and>
   (\<exists>st'. vfs_unlink2 ex_env ex_dir_state (- 1) 0 0 (EOK, ''/a'') True = Some (st', Answer0 ENOENT) \<and>
      trace st' = [OUT_LOOKUP (root ex_dir_state) ''/a'' 0]) \<and>
   (\<exists>st'. vfs_unlink2 ex_root_env ex_dir_state (- 1) 0 0 (EOK, ''/a'') False = Some (st', Answer0 ENOENT) \<and>
      trace st' = [OUT_LOOKUP (root ex_dir_state) ''/a'' 0]) \<and>
   (\<exists>st' ans rest. vfs_unlink2 ex_root_env ex_dir_state (- 1) 0 0 (EOK, ''/a'') True = Some (st', ans) \<and>
      trace st' = OUT_LOOKUP (root ex_dir_state) ''/a'' 0 # OUT_LOOKUP (root ex_dir_state) ''/a'' 16 # rest)"
proof -
  have 1: "fst (EOK, ''/a'') = EOK" by simp
  have 2: "if (0::int) \<le> - 1
      then \<exists>pa pf. fds ex_dir_state (- 1) = Some pa \<and> files ex_dir_state pa = Some pf \<and>
             root ex_dir_state = node pf
      else root ex_dir_state = root ex_dir_state" by simp
  have 3: "(0::int) \<le> 0" by simp
  have 7: "L_DIRECTORY ex_env AND L_UNLINK ex_env = 0" by (simp add: ex_env_def)
  have r7: "L_DIRECTORY ex_root_env AND L_UNLINK ex_root_env = 0"
    by (simp add: ex_root_env_def ex_env_def)
  have u: "L_UNLINK ex_root_env = 16" by (simp add: ex_root_env_def ex_env_def)
  have 8: "(0::cint) = (if 0 AND WALK_DIRECTORY ex_env \<noteq> 0 then L_DIRECTORY ex_env else 0)"
    by simp
  have r8: "(0::cint) = (if 0 AND WALK_DIRECTORY ex_root_env \<noteq> 0 then L_DIRECTORY ex_root_env else 0)"
    by simp
  have 9: "fs ex_env (OUT_LOOKUP (root ex_dir_state) (snd (EOK, ''/a'')) 0) (backend ex_dir_state)
      = (ok_reply, ())" by (simp add: ex_env_def)
  have r9: "fs ex_root_env (OUT_LOOKUP (root ex_dir_state) (snd (EOK, ''/a'')) 0) (backend ex_dir_state)
      = (root_reply, ())" by (simp add: ex_root_env_def)
  have t: "trace ex_dir_state = []" by (simp add: ex_dir_state_def)
  have a: "\<exists>st'. vfs_unlink2 ex_env ex_dir_state (- 1) 0 0 (EOK, ''/a'') True = Some (st', Answer0 ENOENT) \<and>
      trace st' = [OUT_LOOKUP (root ex_dir_state) ''/a'' 0]"
    using unlink2_expect_checked [OF 1 2 3 ex_dir_facts(1,2,4) 7 8 9, of True]
    by (simp add: ok_reply_def t)
  have b: "\<exists>st'. vfs_unlink2 ex_root_env ex_dir_state (- 1) 0 0 (EOK, ''/a'') False = Some (st', Answer0 ENOENT) \<and>
      trace st' = [OUT_LOOKUP (root ex_dir_state) ''/a'' 0]"
    using unlink2_expect_checked [OF 1 2 3 ex_dir_facts(1,2,4) r7 r8 r9, of False]
    by (simp add: root_reply_def t)
  have c: "\<exists>st' ans rest. vfs_unlink2 ex_root_env ex_dir_state (- 1) 0 0 (EOK, ''/a'') True = Some (st', ans) \<and>
      trace st' = OUT_LOOKUP (root ex_dir_state) ''/a'' 0 # OUT_LOOKUP (root ex_dir_state) ''/a'' 16 # rest"
    using unlink2_expect_checked [OF 1 2 3 ex_dir_facts(1,2,4) r7 r8 r9, of True]
    by (simp add: root_reply_def t u)
  from a b c ex_dir_facts(1,2,4) 7 u 9 r9 show ?thesis
    by (simp add: ok_reply_def root_reply_def)
qed

section \<open>Rename\<close>

subsection \<open>The shared prefix of two paths\<close>

text \<open>A C string is the list of its characters before the terminating zero; reading
  index \<open>length s\<close> gives the terminator.\<close>

definition cstr_at :: "string \<Rightarrow> nat \<Rightarrow> char" where
  "cstr_at s i = (if i < length s then s ! i else CHR 0x00)"

text \<open>\<^verbatim>\<open>shared_path\<close>. The first loop runs while the two strings agree and have not ended.
  The second loop walks \<^verbatim>\<open>res\<close> back to a slash of \<open>a\<close>; \<^verbatim>\<open>res\<close> is a \<^verbatim>\<open>size_t\<close>, and
  decrementing it at 0 makes the next read fall outside the string: \<open>None\<close>.\<close>

function first_diff :: "string \<Rightarrow> string \<Rightarrow> nat \<Rightarrow> nat" where
  "first_diff a b res =
     (if cstr_at a res = cstr_at b res \<and> cstr_at a res \<noteq> CHR 0x00
      then first_diff a b (res + 1) else res)"
  by pat_completeness auto
termination
  by (relation "measure (\<lambda>(a, b, res). length a - res)")
     (auto simp: cstr_at_def split: if_splits)

declare first_diff.simps [simp del]

fun scan_back :: "string \<Rightarrow> nat \<Rightarrow> nat option" where
  "scan_back a 0 = (if cstr_at a 0 \<noteq> CHR ''/'' then None else Some 0)"
| "scan_back a (Suc n) = (if cstr_at a (Suc n) \<noteq> CHR ''/'' then scan_back a n else Some (Suc n))"

definition shared_path :: "string \<Rightarrow> string \<Rightarrow> nat option" where
  "shared_path a b =
     (let res = first_diff a b 0 in
      if cstr_at a res = cstr_at b res then Some res
      else if res = 0 then None
      else scan_back a (res - 1))"

subsection \<open>\<^verbatim>\<open>vfs_rename_internal\<close> and \<^verbatim>\<open>vfs_rename\<close>\<close>

text \<open>The result is the return value and the state; \<open>None\<close> is a failed \<^verbatim>\<open>assert\<close> or
  the undefined read of \<open>shared_path\<close>. Writing a zero at \<^verbatim>\<open>old[shared]\<close> and advancing the
  two pointers by \<^verbatim>\<open>shared\<close> are \<open>take\<close> and \<open>drop\<close>. The function is cut in three:
  \<open>rename_link\<close> is its part from the \<^verbatim>\<open>LINK\<close> of step 3 on, \<open>rename_steps\<close> the part from
  the first unlinking lookup on, under the common base.\<close>

definition rename_link ::
  "'b vfs_env \<Rightarrow> 'b vfs_state \<Rightarrow> vfs_triplet \<Rightarrow> string \<Rightarrow> string \<Rightarrow> vfs_lookup_res \<Rightarrow> bool \<Rightarrow>
     vfs_lookup_res \<Rightarrow> errno \<times> 'b vfs_state" where
  "rename_link E st base old new old_lr orig_unlinked new_lr_orig =
     (let (l, st3) = vfs_link_internal E st base new (triplet old_lr) in
      if rc l \<noteq> EOK then
        (let st4 = snd (vfs_link_internal E st3 base old (triplet old_lr)) in
         (rc l,
          if orig_unlinked then snd (vfs_link_internal E st4 base new (triplet new_lr_orig))
          else st4))
      else if orig_unlinked then
        (let (nd, st4) = vfs_node_get st3 new_lr_orig in
         (EOK, case nd of None \<Rightarrow> st4 | Some t \<Rightarrow> vfs_node_put E st4 t))
      else (EOK, st3))"

definition rename_steps ::
  "'b vfs_env \<Rightarrow> 'b vfs_state \<Rightarrow> vfs_triplet \<Rightarrow> string \<Rightarrow> string \<Rightarrow> errno \<times> 'b vfs_state" where
  "rename_steps E st base old new =
     (let (n, st1) = vfs_lookup_internal E st (Some base) new (L_UNLINK E OR L_DISABLE_MOUNTS E);
          orig_unlinked = (rc n = EOK)
      in if rc n \<noteq> EOK \<and> rc n \<noteq> ENOENT then (rc n, st1)
         else
           (let (ol, st2) = vfs_lookup_internal E st1 (Some base) old (L_UNLINK E OR L_DISABLE_MOUNTS E) in
            if rc ol \<noteq> EOK then
              (rc ol,
               if orig_unlinked then snd (vfs_link_internal E st2 base new (triplet (lres n)))
               else st2)
            else rename_link E st2 base old new (lres ol) orig_unlinked (lres n)))"

definition vfs_rename_internal ::
  "'b vfs_env \<Rightarrow> 'b vfs_state \<Rightarrow> vfs_triplet \<Rightarrow> string \<Rightarrow> string \<Rightarrow> (errno \<times> 'b vfs_state) option" where
  "vfs_rename_internal E st base old new =
     (case shared_path old new of
        None \<Rightarrow> None
      | Some shared \<Rightarrow>
          if cstr_at old shared = CHR 0x00 \<or> cstr_at new shared = CHR 0x00 then Some (EINVAL, st)
          else if cstr_at old shared \<noteq> CHR ''/'' \<or> cstr_at new shared \<noteq> CHR ''/'' then None
          else if shared \<noteq> 0 then
            (let (bl, st1) = vfs_lookup_internal E st (Some base) (take shared old) (L_DIRECTORY E) in
             if rc bl \<noteq> EOK then Some (rc bl, st1)
             else Some (rename_steps E st1 (triplet (lres bl)) (drop shared old) (drop shared new)))
          else Some (rename_steps E st base old new))"

subsection \<open>A path that is a prefix of the other is not rejected\<close>

text \<open>The requests of a handler only ever extend the trace.\<close>

definition trace_extends :: "'b vfs_state \<Rightarrow> 'b vfs_state \<Rightarrow> bool" where
  "trace_extends S S' = (\<exists>ys. trace S' = trace S @ ys)"

lemma trace_extends_refl [simp]: "trace_extends S S"
  by (simp add: trace_extends_def)

lemma trace_extends_trans: "trace_extends S S' \<Longrightarrow> trace_extends S' S'' \<Longrightarrow> trace_extends S S''"
  by (auto simp: trace_extends_def)

lemma trace_extends_request: "trace_extends S (snd (request E S r))"
  by (simp add: trace_extends_def request_trace)

lemma trace_extends_node_get: "trace_extends S (snd (vfs_node_get S lr))"
  by (simp add: trace_extends_def)

lemma trace_extends_node_put: "trace_extends S (vfs_node_put E S t)"
  using vfs_node_put_trace [of E S t] by (auto simp: trace_extends_def)

lemma trace_extends_ops:
  "trace_extends S S' \<Longrightarrow> trace_extends S (snd (vfs_lookup_internal E S' b p f))"
  "trace_extends S S' \<Longrightarrow> trace_extends S (snd (vfs_link_internal E S' d p t))"
  "trace_extends S S' \<Longrightarrow> trace_extends S (snd (vfs_node_get S' lr))"
  "trace_extends S S' \<Longrightarrow> trace_extends S (vfs_node_put E S' t)"
  unfolding vfs_lookup_internal_def vfs_link_internal_def
  by (blast intro: trace_extends_trans trace_extends_request trace_extends_node_get
      trace_extends_node_put)+

lemma sp_ex: "shared_path ''/a'' ''/a/b'' = Some 0"
  by (simp add: shared_path_def cstr_at_def first_diff.simps)

lemma rename_steps_trace:
  "\<exists>rest. trace (snd (rename_steps E st base old new)) =
     trace st @ OUT_LOOKUP (Some base) new (L_UNLINK E OR L_DISABLE_MOUNTS E) # rest"
proof -
  let ?q = "OUT_LOOKUP (Some base) new (L_UNLINK E OR L_DISABLE_MOUNTS E)"
  let ?st1 = "snd (vfs_lookup_internal E st (Some base) new (L_UNLINK E OR L_DISABLE_MOUNTS E))"
  have t1: "trace ?st1 = trace st @ [?q]"
    by (simp add: vfs_lookup_internal_def request_trace)
  have "trace_extends ?st1 (snd (rename_steps E st base old new))"
    by (simp add: rename_steps_def rename_link_def split_beta Let_def trace_extends_ops
        split: option.splits)
  then show ?thesis using t1 by (auto simp: trace_extends_def)
qed



text \<open>
  C2. The claim is that for canonical paths of which one is a prefix of the other, such as
  \<open>old = "/a"\<close> and \<open>new = "/a/b"\<close>, rename returns \<^verbatim>\<open>EINVAL\<close> without any lookup,
  unlink or link. The code does not do that: \<open>shared_path "/a" "/a/b"\<close> is 0, both
  strings have a slash there, the test for a terminator at \<^verbatim>\<open>old[shared]\<close> or
  \<^verbatim>\<open>new[shared]\<close> does not fire, and the handler goes on to the unlinking lookup of
  \<open>"/a/b"\<close>, whatever the servers and the state are.
\<close>

theorem rename_prefix_not_rejected:
  "\<exists>r st' rest. vfs_rename_internal E st base ''/a'' ''/a/b'' = Some (r, st') \<and>
     trace st' = trace st @ OUT_LOOKUP (Some base) ''/a/b'' (L_UNLINK E OR L_DISABLE_MOUNTS E) # rest"
proof -
  have "vfs_rename_internal E st base ''/a'' ''/a/b'' = Some (rename_steps E st base ''/a'' ''/a/b'')"
    by (simp add: vfs_rename_internal_def sp_ex cstr_at_def)
  with rename_steps_trace [of E st base "''/a''" "''/a/b''"] show ?thesis
    by (cases "rename_steps E st base ''/a'' ''/a/b''") auto
qed

text \<open>On the single-client state with servers that answer every request with success, from
  the base \<open>(1, 7, 0)\<close>.\<close>

theorem rename_prefix_not_rejected_witness:
  "\<exists>r st' rest.
     vfs_rename_internal ex_env ex_state \<lparr>fs_handle = 1, service_id = 7, index = 0\<rparr> ''/a'' ''/a/b'' =
       Some (r, st') \<and>
     trace st' = trace ex_state @
       OUT_LOOKUP (Some \<lparr>fs_handle = 1, service_id = 7, index = 0\<rparr>) ''/a/b''
         (L_UNLINK ex_env OR L_DISABLE_MOUNTS ex_env) # rest"
  by (rule rename_prefix_not_rejected)

subsection \<open>A file system server that keeps a namespace\<close>

text \<open>Modelled from the spec: the answers to the requests of \<^verbatim>\<open>vfs_lookup_internal\<close> and
  \<^verbatim>\<open>vfs_link_internal\<close>, whose file \<^verbatim>\<open>vfs_lookup.c\<close> and whose servers are not among the
  sources. The resolver ``takes \<open>(base_triplet, path, flags)\<close> and yields a lookup result
  or an error''; \<^verbatim>\<open>UNLINK\<close> means ``remove the terminal name from its parent'',
  \<^verbatim>\<open>DIRECTORY\<close> ``require terminal to be a directory''; \<^verbatim>\<open>LINK\<close> puts a triplet ``at the
  new name''. The namespace is a map from a directory and a name to the node of that
  name; a path is walked component by component. A server may also refuse a \<^verbatim>\<open>LINK\<close> for
  reasons of its own (``backend (\<^verbatim>\<open>EIO\<close>, \<^verbatim>\<open>ENOTSUP\<close>) surfaced from the peer''): the state
  carries the list of those decisions for the \<^verbatim>\<open>LINK\<close> requests to come.\<close>

record ns_state =
  entries :: "vfs_triplet \<times> string \<rightharpoonup> vfs_triplet"
  kinds :: "vfs_triplet \<Rightarrow> vfs_node_type"
  link_faults :: "bool list"

primrec split_on :: "string \<Rightarrow> string \<Rightarrow> string list" where
  "split_on cur [] = (if cur = [] then [] else [cur])"
| "split_on cur (c # cs) =
     (if c = CHR ''/'' then (if cur = [] then split_on [] cs else cur # split_on [] cs)
      else split_on (cur @ [c]) cs)"

definition components :: "string \<Rightarrow> string list" where
  "components p = split_on [] p"

fun walk :: "(vfs_triplet \<times> string \<rightharpoonup> vfs_triplet) \<Rightarrow> vfs_triplet \<Rightarrow> string list \<Rightarrow> vfs_triplet option" where
  "walk ns d [] = Some d"
| "walk ns d (c # cs) = (case ns (d, c) of None \<Rightarrow> None | Some t \<Rightarrow> walk ns t cs)"

definition resolve :: "ns_state \<Rightarrow> vfs_triplet \<Rightarrow> string \<Rightarrow> vfs_triplet option" where
  "resolve s base path = walk (entries s) base (components path)"

definition ns_reply :: "ns_state \<Rightarrow> errno \<Rightarrow> vfs_triplet \<Rightarrow> fs_reply" where
  "ns_reply s e t =
     \<lparr>rc = e, lres = \<lparr>triplet = t, lr_size = 0, lr_type = kinds s t\<rparr>, arg1 = 0, arg2 = 0, arg3 = 0\<rparr>"

definition null_triplet :: vfs_triplet where
  "null_triplet = \<lparr>fs_handle = 0, service_id = 0, index = 0\<rparr>"

definition ns_lookup ::
  "cint \<Rightarrow> cint \<Rightarrow> vfs_triplet option \<Rightarrow> string \<Rightarrow> cint \<Rightarrow> ns_state \<Rightarrow> fs_reply \<times> ns_state" where
  "ns_lookup unl dir base path flags s =
     (case base of
        None \<Rightarrow> (ns_reply s ENOENT null_triplet, s)
      | Some d \<Rightarrow>
          if flags AND unl \<noteq> 0 then
            (if components path = [] then (ns_reply s EBUSY null_triplet, s)
             else
               (case walk (entries s) d (butlast (components path)) of
                  None \<Rightarrow> (ns_reply s ENOENT null_triplet, s)
                | Some p \<Rightarrow>
                    (case entries s (p, last (components path)) of
                       None \<Rightarrow> (ns_reply s ENOENT null_triplet, s)
                     | Some t \<Rightarrow>
                         if flags AND dir \<noteq> 0 \<and> kinds s t \<noteq> VFS_NODE_DIRECTORY
                         then (ns_reply s ENOTDIR null_triplet, s)
                         else (ns_reply s EOK t,
                               s\<lparr>entries := (entries s)((p, last (components path)) := None)\<rparr>))))
          else
            (case walk (entries s) d (components path) of
               None \<Rightarrow> (ns_reply s ENOENT null_triplet, s)
             | Some t \<Rightarrow>
                 if flags AND dir \<noteq> 0 \<and> kinds s t \<noteq> VFS_NODE_DIRECTORY
                 then (ns_reply s ENOTDIR null_triplet, s)
                 else (ns_reply s EOK t, s)))"

definition ns_link :: "vfs_triplet \<Rightarrow> string \<Rightarrow> vfs_triplet \<Rightarrow> ns_state \<Rightarrow> fs_reply \<times> ns_state" where
  "ns_link d path child s =
     (let s1 = s\<lparr>link_faults := tl (link_faults s)\<rparr> in
      if link_faults s \<noteq> [] \<and> hd (link_faults s) then (ns_reply s EIO null_triplet, s1)
      else if components path = [] then (ns_reply s EEXIST null_triplet, s1)
      else
        (case walk (entries s) d (butlast (components path)) of
           None \<Rightarrow> (ns_reply s ENOENT null_triplet, s1)
         | Some p \<Rightarrow>
             (case entries s (p, last (components path)) of
                Some t \<Rightarrow> (ns_reply s EEXIST null_triplet, s1)
              | None \<Rightarrow>
                  (ns_reply s EOK child,
                   s1\<lparr>entries := (entries s)((p, last (components path)) \<mapsto> child)\<rparr>))))"

fun ns_fs :: "cint \<Rightarrow> cint \<Rightarrow> out_request \<Rightarrow> ns_state \<Rightarrow> fs_reply \<times> ns_state" where
  "ns_fs unl dir (OUT_LOOKUP base path flags) s = ns_lookup unl dir base path flags s"
| "ns_fs unl dir (OUT_LINK d path child) s = ns_link d path child s"
| "ns_fs unl dir req s = (ns_reply s EOK null_triplet, s)"

text \<open>A path as the handler receives it from the canonicalisation: it begins with a slash
  and, being a C string, contains no zero character.\<close>

definition canonical :: "string \<Rightarrow> bool" where
  "canonical p = (p \<noteq> [] \<and> hd p = CHR ''/'' \<and> CHR 0x00 \<notin> set p)"

subsection \<open>What \<open>shared_path\<close> returns on canonical paths\<close>

lemma cstr_at_nonzero:
  "CHR 0x00 \<notin> set a \<Longrightarrow> cstr_at a k \<noteq> CHR 0x00 \<longleftrightarrow> k < length a"
  by (auto simp: cstr_at_def dest: nth_mem)

lemma first_diff_prefix:
  assumes "CHR 0x00 \<notin> set a" and "CHR 0x00 \<notin> set b"
    and "res \<le> length a" and "res \<le> length b" and "take res a = take res b"
  shows "first_diff a b res \<le> length a \<and> first_diff a b res \<le> length b \<and>
         take (first_diff a b res) a = take (first_diff a b res) b \<and>
         \<not> (cstr_at a (first_diff a b res) = cstr_at b (first_diff a b res) \<and>
            cstr_at a (first_diff a b res) \<noteq> CHR 0x00)"
  using assms
proof (induction a b res rule: first_diff.induct)
  case (1 a b res)
  show ?case
  proof (cases "cstr_at a res = cstr_at b res \<and> cstr_at a res \<noteq> CHR 0x00")
    case False
    have "first_diff a b res = res" by (subst first_diff.simps) (simp only: if_not_P [OF False])
    with False "1.prems" show ?thesis by simp
  next
    case True
    then have la: "res < length a" using "1.prems"(1) by (simp add: cstr_at_nonzero)
    from True have "cstr_at b res \<noteq> CHR 0x00" by auto
    then have lb: "res < length b" using "1.prems"(2) by (simp add: cstr_at_nonzero)
    from True la lb have eq: "a ! res = b ! res" by (simp add: cstr_at_def)
    have tk: "take (res + 1) a = take (res + 1) b"
      using la lb eq "1.prems"(5) by (simp add: take_Suc_conv_app_nth)
    have step: "first_diff a b res = first_diff a b (res + 1)"
      by (subst first_diff.simps) (simp only: if_P [OF True])
    from "1.IH" [OF True "1.prems"(1,2) _ _ tk] la lb
    show ?thesis unfolding step by simp
  qed
qed

lemma scan_back_finds:
  assumes "cstr_at a 0 = CHR ''/''"
  shows "\<exists>n\<le>m. scan_back a m = Some n \<and> cstr_at a n = CHR ''/''"
proof (induction m)
  case 0
  with assms show ?case by simp
next
  case (Suc m)
  then show ?case by (cases "cstr_at a (Suc m) = CHR ''/''") auto
qed

lemma shared_path_canonical:
  assumes "canonical a" and "canonical b"
  shows "(a = b \<and> shared_path a b = Some (length a)) \<or>
         (\<exists>n. shared_path a b = Some n \<and> n < length a \<and> n < length b \<and>
              a ! n = CHR ''/'' \<and> b ! n = CHR ''/'' \<and> take n a = take n b)"
proof -
  let ?k = "first_diff a b 0"
  have za: "CHR 0x00 \<notin> set a" and zb: "CHR 0x00 \<notin> set b"
    using assms by (simp_all add: canonical_def)
  have a0: "cstr_at a 0 = CHR ''/''" and b0: "cstr_at b 0 = CHR ''/''"
    using assms by (auto simp: canonical_def cstr_at_def hd_conv_nth)
  from first_diff_prefix [OF za zb, of 0]
  have k: "?k \<le> length a" "?k \<le> length b" "take ?k a = take ?k b"
    "\<not> (cstr_at a ?k = cstr_at b ?k \<and> cstr_at a ?k \<noteq> CHR 0x00)"
    by simp_all
  show ?thesis
  proof (cases "cstr_at a ?k = cstr_at b ?k")
    case True
    with k(4) have "cstr_at a ?k = CHR 0x00" "cstr_at b ?k = CHR 0x00" by simp_all
    then have "\<not> ?k < length a" "\<not> ?k < length b"
      using za zb cstr_at_nonzero by blast+
    with k(1,2) have "?k = length a" "?k = length b" by simp_all
    with k(3) have "a = b" by (metis take_all order_refl)
    with True \<open>?k = length a\<close> show ?thesis by (simp add: shared_path_def Let_def)
  next
    case False
    have "?k \<noteq> 0"
    proof
      assume "?k = 0"
      with k(4) a0 b0 show False by simp
    qed
    from scan_back_finds [OF a0, of "?k - 1"]
    obtain n where n: "n \<le> ?k - 1" "scan_back a (?k - 1) = Some n" "cstr_at a n = CHR ''/''"
      by blast
    from n(1) \<open>?k \<noteq> 0\<close> have nk: "n < ?k" by simp
    with k(1,2) have nl: "n < length a" "n < length b" by simp_all
    from n(3) nl have an: "a ! n = CHR ''/''" by (simp add: cstr_at_def)
    have "a ! n = b ! n"
      using nk k(3) by (metis nth_take)
    with an have bn: "b ! n = CHR ''/''" by simp
    have "take n a = take n b"
      using nk k(3) by (metis min.absorb1 less_imp_le take_take)
    with False \<open>?k \<noteq> 0\<close> n(2) nl an bn show ?thesis
      by (simp add: shared_path_def Let_def)
  qed
qed

lemma split_on_append_slash:
  "split_on cur (xs @ CHR ''/'' # ys) = split_on cur xs @ split_on [] ys"
  by (induction xs arbitrary: cur) simp_all

lemma components_split:
  assumes "n < length a" and "a ! n = CHR ''/''"
  shows "components a = components (take n a) @ components (drop n a)"
proof -
  have "a = take n a @ CHR ''/'' # drop (Suc n) a"
    using assms by (metis id_take_nth_drop)
  moreover have "drop n a = CHR ''/'' # drop (Suc n) a"
    using assms by (metis Cons_nth_drop_Suc)
  ultimately show ?thesis
    unfolding components_def
    by (metis split_on_append_slash split_on.simps(2))
qed

subsection \<open>Walking the namespace\<close>

text \<open>\<open>find_entry\<close> is the directory entry that a path names: the directory reached by
  all components but the last, and the node under the last component there.\<close>

lemma walk_append:
  "walk ns d (xs @ ys) = (case walk ns d xs of None \<Rightarrow> None | Some t \<Rightarrow> walk ns t ys)"
  by (induction xs arbitrary: d) (simp_all split: option.splits)

lemma walk_mono:
  assumes "ns \<subseteq>\<^sub>m ns'" and "walk ns d cs = Some p"
  shows "walk ns' d cs = Some p"
  using assms(2)
proof (induction cs arbitrary: d)
  case Nil
  then show ?case by simp
next
  case (Cons c cs)
  then obtain t where t: "ns (d, c) = Some t" "walk ns t cs = Some p"
    by (auto split: option.splits)
  from t(1) assms(1) have "ns' (d, c) = Some t"
    by (auto simp: map_le_def dom_def)
  with Cons.IH [OF t(2)] show ?case by simp
qed

lemma walk_rank:
  assumes "\<And>d n t. ns (d, n) = Some t \<Longrightarrow> rank d < (rank t :: nat)"
    and "walk ns d cs = Some p"
  shows "rank d \<le> rank p"
  using assms(2)
proof (induction cs arbitrary: d)
  case Nil
  then show ?case by simp
next
  case (Cons c cs)
  then obtain t where t: "ns (d, c) = Some t" "walk ns t cs = Some p"
    by (auto split: option.splits)
  from assms(1) [OF t(1)] Cons.IH [OF t(2)] show ?case by simp
qed

lemma walk_change_above:
  assumes "\<And>d n t. ns (d, n) = Some t \<Longrightarrow> rank d < (rank t :: nat)"
    and "walk ns d cs = Some p"
    and "\<And>k. ns' k \<noteq> ns k \<Longrightarrow> rank p \<le> rank (fst k)"
  shows "walk ns' d cs = Some p"
  using assms(2)
proof (induction cs arbitrary: d)
  case Nil
  then show ?case by simp
next
  case (Cons c cs)
  then obtain t where t: "ns (d, c) = Some t" "walk ns t cs = Some p"
    by (auto split: option.splits)
  have "rank d < rank t" by (rule assms(1) [OF t(1)])
  also have "rank t \<le> rank p" by (rule walk_rank [OF assms(1) t(2)])
  finally have "rank d < rank p" .
  then have "ns' (d, c) = ns (d, c)"
    using assms(3) [of "(d, c)"] by fastforce
  with t Cons.IH [OF t(2)] show ?case by simp
qed


definition find_entry ::
  "(vfs_triplet \<times> string \<rightharpoonup> vfs_triplet) \<Rightarrow> vfs_triplet \<Rightarrow> string list \<Rightarrow>
     (vfs_triplet \<times> vfs_triplet) option" where
  "find_entry ns B cs =
     (if cs = [] then None
      else (case walk ns B (butlast cs) of
              None \<Rightarrow> None
            | Some p \<Rightarrow> map_option (\<lambda>t. (p, t)) (ns (p, last cs))))"

lemma find_entry_Some:
  "find_entry ns B cs = Some (p, t) \<longleftrightarrow>
     cs \<noteq> [] \<and> walk ns B (butlast cs) = Some p \<and> ns (p, last cs) = Some t"
  by (auto simp: find_entry_def split: option.splits)

lemma find_entry_walk:
  "find_entry ns B cs = Some (p, t) \<Longrightarrow> walk ns B cs = Some t"
proof -
  assume a: "find_entry ns B cs = Some (p, t)"
  then have c: "cs \<noteq> []" "walk ns B (butlast cs) = Some p" "ns (p, last cs) = Some t"
    by (simp_all add: find_entry_Some)
  have "walk ns B (butlast cs @ [last cs]) = Some t"
    using c(2,3) by (simp add: walk_append)
  with c(1) show ?thesis by simp
qed

lemma walk_find_entry:
  assumes "cs \<noteq> []" and "walk ns B cs = Some t"
  shows "\<exists>p. find_entry ns B cs = Some (p, t)"
proof -
  have "walk ns B (butlast cs @ [last cs]) = Some t" using assms by simp
  then obtain p where p: "walk ns B (butlast cs) = Some p" "walk ns p [last cs] = Some t"
    unfolding walk_append by (auto split: option.splits)
  from p(2) have "ns (p, last cs) = Some t" by (auto split: option.splits)
  with p(1) assms(1) show ?thesis by (auto simp: find_entry_Some)
qed

lemma ns_lookup_unlink_ok:
  assumes "fl AND u \<noteq> 0" and "fl AND d = 0"
    and "find_entry (entries s) B (components path) = Some (p, t)"
  shows "ns_lookup u d (Some B) path fl s =
     (ns_reply s EOK t, s\<lparr>entries := (entries s)((p, last (components path)) := None)\<rparr>)"
  using assms by (simp add: ns_lookup_def find_entry_Some)

lemma ns_lookup_unlink_fail:
  assumes "fl AND u \<noteq> 0" and "fl AND d = 0"
    and "find_entry (entries s) B (components path) = None"
  shows "\<exists>e. e \<noteq> EOK \<and> e \<noteq> EIO \<and> ns_lookup u d (Some B) path fl s = (ns_reply s e null_triplet, s) \<and>
           (e = ENOENT \<longrightarrow> components path \<noteq> [])"
  using assms by (auto simp: ns_lookup_def find_entry_def split: option.splits)

lemma ns_lookup_plain:
  assumes "fl AND u = 0"
  shows "snd (ns_lookup u d (Some B) path fl s) = s \<and>
         rc (fst (ns_lookup u d (Some B) path fl s)) \<noteq> EIO \<and>
         (rc (fst (ns_lookup u d (Some B) path fl s)) = EOK \<longrightarrow>
            walk (entries s) B (components path) =
              Some (triplet (lres (fst (ns_lookup u d (Some B) path fl s)))))"
  using assms by (auto simp: ns_lookup_def ns_reply_def split: option.splits)

lemma ns_link_result:
  "\<exists>r s'. ns_link B path child s = (r, s') \<and> link_faults s' = tl (link_faults s) \<and>
     kinds s' = kinds s \<and>
     (rc r = EOK \<longrightarrow>
        (\<exists>p. components path \<noteq> [] \<and> walk (entries s) B (butlast (components path)) = Some p \<and>
             entries s (p, last (components path)) = None \<and>
             entries s' = (entries s)((p, last (components path)) \<mapsto> child))) \<and>
     (rc r \<noteq> EOK \<longrightarrow> entries s' = entries s) \<and>
     (rc r = EIO \<longrightarrow> link_faults s \<noteq> [] \<and> hd (link_faults s)) \<and>
     (link_faults s \<noteq> [] \<and> hd (link_faults s) \<longrightarrow> rc r = EIO)"
  by (auto simp: ns_link_def Let_def ns_reply_def split: option.splits)

lemma relink_restores:
  assumes acyc: "\<And>d n t. ns (d, n) = Some t \<Longrightarrow> rank d < (rank t :: nat)"
    and fe: "find_entry ns B (components path) = Some (p, t)"
    and ent: "entries s = ns((p, last (components path)) := None)"
    and nofault: "link_faults s = [] \<or> \<not> hd (link_faults s)"
  shows "ns_link B path t s =
     (ns_reply s EOK t, s\<lparr>link_faults := tl (link_faults s), entries := ns\<rparr>)"
proof -
  from fe have c: "components path \<noteq> []" "walk ns B (butlast (components path)) = Some p"
    "ns (p, last (components path)) = Some t" by (simp_all add: find_entry_Some)
  have w: "walk (entries s) B (butlast (components path)) = Some p"
  proof (rule walk_change_above [where rank = rank, OF acyc c(2)])
    fix k assume "entries s k \<noteq> ns k"
    then have "k = (p, last (components path))" unfolding ent by (auto split: if_splits)
    then show "rank p \<le> rank (fst k)" by simp
  qed (assumption)
  have e: "entries s (p, last (components path)) = None" by (simp add: ent)
  have m: "(entries s)((p, last (components path)) \<mapsto> t) = ns"
    unfolding ent using c(3) by (auto simp: fun_eq_iff)
  show ?thesis
    using c(1) w e nofault m by (auto simp: ns_link_def Let_def)
qed

subsection \<open>Rename over the namespace server\<close>

text \<open>What the rename needs of the lookup flags: its unlinking lookups carry the unlink bit
  and not the directory bit, and the directory bit is not the unlink bit.\<close>

definition ns_flags_ok :: "'b vfs_env \<Rightarrow> bool" where
  "ns_flags_ok E =
     ((L_UNLINK E OR L_DISABLE_MOUNTS E) AND L_UNLINK E \<noteq> 0 \<and>
      (L_UNLINK E OR L_DISABLE_MOUNTS E) AND L_DIRECTORY E = 0 \<and>
      L_DIRECTORY E AND L_UNLINK E = 0)"

lemma lookup_ns:
  assumes "fs E = ns_fs u d" and "vfs_lookup_internal E st b p f = (x, st')"
  shows "ns_lookup u d b p f (backend st) = (x, backend st')"
  using assms by (auto simp: vfs_lookup_internal_def request_def split_beta)

lemma link_ns:
  assumes "fs E = ns_fs u d" and "vfs_link_internal E st b p t = (x, st')"
  shows "ns_link b p t (backend st) = (x, backend st')"
  using assms by (auto simp: vfs_link_internal_def request_def split_beta)

lemma node_get_put_backend:
  assumes "fs E = ns_fs u d"
  shows "backend (vfs_node_put E (snd (vfs_node_get st lr)) t) = backend st"
  by (simp add: vfs_node_put_def request_def split_beta assms split: option.splits)

lemma find_entry_sub:
  assumes "ns1 \<subseteq>\<^sub>m ns" and "find_entry ns1 B cs = Some (p, t)"
  shows "find_entry ns B cs = Some (p, t)"
proof -
  from assms(2) have c: "cs \<noteq> []" "walk ns1 B (butlast cs) = Some p" "ns1 (p, last cs) = Some t"
    by (simp_all add: find_entry_Some)
  from c(3) assms(1) have "ns (p, last cs) = Some t" by (auto simp: map_le_def dom_def)
  with c(1) walk_mono [OF assms(1) c(2)] show ?thesis by (simp add: find_entry_Some)
qed

text \<open>A link of a node at a path whose entry in \<open>ns\<close> is that node, on a namespace below
  \<open>ns\<close> that lacks the entry, either restores the entry or changes nothing.\<close>

lemma relink_either:
  assumes sub: "cur \<subseteq>\<^sub>m ns"
    and fe: "find_entry ns B (components path) = Some (p, t)"
    and ent: "entries s = cur"
    and res: "ns_link B path t s = (r, s')"
  shows "(entries s' = cur \<or> entries s' = cur((p, last (components path)) \<mapsto> t)) \<and>
         link_faults s' = tl (link_faults s)"
proof -
  from ns_link_result [of B path t s] obtain r0 s0 where
    r0: "ns_link B path t s = (r0, s0)" "link_faults s0 = tl (link_faults s)"
      "rc r0 = EOK \<longrightarrow>
        (\<exists>q. components path \<noteq> [] \<and> walk (entries s) B (butlast (components path)) = Some q \<and>
             entries s (q, last (components path)) = None \<and>
             entries s0 = (entries s)((q, last (components path)) \<mapsto> t))"
      "rc r0 \<noteq> EOK \<longrightarrow> entries s0 = entries s"
    by blast
  from r0(1) res have eq: "r0 = r" "s0 = s'" by simp_all
  have lf: "link_faults s' = tl (link_faults s)" using r0(2) eq by simp
  have ok: "\<exists>q. walk (entries s) B (butlast (components path)) = Some q \<and>
             entries s' = (entries s)((q, last (components path)) \<mapsto> t)" if "rc r = EOK"
    using r0(3) eq that by blast
  have bad: "entries s' = entries s" if "rc r \<noteq> EOK"
    using r0(4) eq that by blast
  show ?thesis
  proof (cases "rc r = EOK")
    case False
    with bad lf ent show ?thesis by simp
  next
    case True
    from ok [OF True] obtain q where q: "walk (entries s) B (butlast (components path)) = Some q"
      "entries s' = (entries s)((q, last (components path)) \<mapsto> t)" by blast
    from walk_mono [OF sub q(1) [unfolded ent]] fe have "q = p" by (simp add: find_entry_Some)
    with q(2) lf ent show ?thesis by simp
  qed
qed


lemma no_true_hd: "True \<notin> set xs \<Longrightarrow> xs = [] \<or> \<not> hd xs"
  by (cases xs) auto

lemma no_true_tl: "True \<notin> set xs \<Longrightarrow> True \<notin> set (tl xs)"
  by (cases xs) auto

lemma walk_snoc_None:
  assumes "cs \<noteq> []" and "walk ns B (butlast cs) = Some p" and "ns (p, last cs) = None"
  shows "walk ns B cs = None"
proof -
  have "walk ns B (butlast cs @ [last cs]) = None"
    unfolding walk_append using assms(2,3) by simp
  with assms(1) show ?thesis by simp
qed

lemma rename_link_ns:
  fixes rank :: "vfs_triplet \<Rightarrow> nat"
  assumes env: "fs E = ns_fs u d"
    and acycO: "\<forall>d n t. ns (d, n) = Some t \<longrightarrow> rank d < rank t"
    and orig: "if orig
               then find_entry ns B (components new) = Some (pb0, triplet lrb) \<and>
                    ns1 = ns((pb0, last (components new)) := None)
               else ns1 = ns \<and> find_entry ns B (components new) = None"
    and fa: "find_entry ns1 B (components old) = Some (pa, triplet lra)"
    and e2: "entries (backend st2) = ns1((pa, last (components old)) := None)"
    and run: "rename_link E st2 B old new lra orig lrb = (r, st')"
  shows "walk ns B (components old) = Some (triplet lra)"
    and "r = EOK \<Longrightarrow>
           walk (entries (backend st')) B (components new) = Some (triplet lra) \<and>
           walk (entries (backend st')) B (components old) = None"
    and "entries (backend st') k \<noteq> ns k \<Longrightarrow> rank B \<le> rank (fst k)"
    and "r \<noteq> EOK \<Longrightarrow> True \<notin> set (tl (link_faults (backend st2))) \<Longrightarrow>
           entries (backend st') = ns"
proof -
  have acyc: "\<And>d n t. ns (d, n) = Some t \<Longrightarrow> rank d < rank t"
    using acycO by blast
  define ca where "ca = components old"
  define cb where "cb = components new"
  define ta where "ta = triplet lra"
  define tb where "tb = triplet lrb"
  define ka where "ka = (pa, last ca)"
  define kb where "kb = (pb0, last cb)"
  define ns2 where "ns2 = ns1(ka := None)"
  note defs = ca_def cb_def ta_def tb_def ka_def kb_def
  have o1: "orig \<Longrightarrow> find_entry ns B cb = Some (pb0, tb) \<and> ns1 = ns(kb := None)"
    and o2: "\<not> orig \<Longrightarrow> ns1 = ns \<and> find_entry ns B cb = None"
    using orig by (simp_all add: defs split: if_splits)
  have sub1: "ns1 \<subseteq>\<^sub>m ns"
  proof (cases orig)
    case True
    with o1 show ?thesis by (auto simp: map_le_def)
  next
    case False
    with o2 show ?thesis by simp
  qed
  have off1: "ns1 k' = ns k'" if "k' \<noteq> kb" for k'
    using o1 o2 that by (cases orig) auto
  have acyc1: "\<And>d n t. ns1 (d, n) = Some t \<Longrightarrow> rank d < rank t"
  proof -
    fix d n t assume "ns1 (d, n) = Some t"
    with sub1 have "ns (d, n) = Some t" by (auto simp: map_le_def dom_def)
    then show "rank d < rank t" by (rule acyc)
  qed
  from fa have c: "ca \<noteq> []" "walk ns1 B (butlast ca) = Some pa" "ns1 ka = Some ta"
    by (simp_all add: find_entry_Some defs)
  have fa_ns: "find_entry ns B ca = Some (pa, ta)"
    using find_entry_sub [OF sub1 fa] by (simp add: defs)
  then have ca_ns: "walk ns B (butlast ca) = Some pa" "ns ka = Some ta"
    by (simp_all add: find_entry_Some defs)
  show pre: "walk ns B (components old) = Some (triplet lra)"
    using find_entry_walk [OF fa_ns] by (simp add: defs)
  have sub2: "ns2 \<subseteq>\<^sub>m ns1" by (auto simp: ns2_def map_le_def)
  have sub2': "ns2 \<subseteq>\<^sub>m ns" using sub2 sub1 by (rule map_le_trans)
  have w2: "walk ns2 B (butlast ca) = Some pa"
  proof (rule walk_change_above [where rank = rank and ns = ns1])
    show "\<And>d n t. ns1 (d, n) = Some t \<Longrightarrow> rank d < rank t" by (rule acyc1)
    show "walk ns1 B (butlast ca) = Some pa" by (rule c(2))
    fix k' assume "ns2 k' \<noteq> ns1 k'"
    then have "k' = ka" by (auto simp: ns2_def split: if_splits)
    then show "rank pa \<le> rank (fst k')" by (simp add: ka_def)
  qed
  have rka: "rank B \<le> rank (fst ka)"
    using walk_rank [where rank = rank, OF acyc ca_ns(1)] by (simp add: ka_def)
  have rkb: "rank B \<le> rank (fst kb)" if orig
  proof -
    from o1 [OF that] have "walk ns B (butlast cb) = Some pb0" by (simp add: find_entry_Some)
    from walk_rank [where rank = rank, OF acyc this] show ?thesis by (simp add: kb_def)
  qed
  have back1: "ns2(ka \<mapsto> ta) = ns1"
    using c(3) by (auto simp: ns2_def fun_eq_iff)
  have e2': "entries (backend st2) = ns2" using e2 by (simp add: ns2_def defs)
  obtain l st3 where l3: "vfs_link_internal E st2 B new ta = (l, st3)"
    by (cases "vfs_link_internal E st2 B new ta")
  have nl: "ns_link B new ta (backend st2) = (l, backend st3)"
    using link_ns [OF env l3] .
  from ns_link_result [of B new ta "backend st2"] obtain r0 s0 where
    r0: "ns_link B new ta (backend st2) = (r0, s0)" "link_faults s0 = tl (link_faults (backend st2))"
      "rc r0 = EOK \<longrightarrow>
        (\<exists>q. components new \<noteq> [] \<and>
             walk (entries (backend st2)) B (butlast (components new)) = Some q \<and>
             entries (backend st2) (q, last (components new)) = None \<and>
             entries s0 = (entries (backend st2))((q, last (components new)) \<mapsto> ta))"
      "rc r0 \<noteq> EOK \<longrightarrow> entries s0 = entries (backend st2)"
    by blast
  from r0(1) nl have eq: "r0 = l" "s0 = backend st3" by simp_all
  have lf3: "link_faults (backend st3) = tl (link_faults (backend st2))"
    using r0(2) eq by simp
  have main: "(r = EOK \<longrightarrow>
           walk (entries (backend st')) B cb = Some ta \<and>
           walk (entries (backend st')) B ca = None) \<and>
        (\<forall>k'. k' \<noteq> ka \<longrightarrow> k' \<noteq> kb \<or> \<not> orig \<longrightarrow> (r = EOK \<longrightarrow> k' \<noteq> (the (walk ns B (butlast cb)), last cb)) \<longrightarrow>
            entries (backend st') k' = ns k') \<and>
        (r = EOK \<longrightarrow> walk ns B (butlast cb) \<noteq> None) \<and>
        (r \<noteq> EOK \<longrightarrow> True \<notin> set (tl (link_faults (backend st2))) \<longrightarrow>
           entries (backend st') = ns)"
  proof (cases "rc l = EOK")
    case True
    from r0(3) True eq(1) have "\<exists>q. components new \<noteq> [] \<and>
             walk (entries (backend st2)) B (butlast (components new)) = Some q \<and>
             entries (backend st2) (q, last (components new)) = None \<and>
             entries s0 = (entries (backend st2))((q, last (components new)) \<mapsto> ta)"
      by simp
    then obtain q where q: "cb \<noteq> []" "walk ns2 B (butlast cb) = Some q"
      "ns2 (q, last cb) = None" "entries (backend st3) = ns2((q, last cb) \<mapsto> ta)"
      unfolding e2' eq(2) cb_def [symmetric] by blast
    have fin: "r = EOK \<and> backend st' = backend st3"
    proof (cases orig)
      case yes: True
      with run l3 [unfolded ta_def] True
      have "r = EOK" "st' = vfs_node_put E (snd (vfs_node_get st3 lrb)) (triplet lrb)"
        by (simp_all add: rename_link_def split_beta)
      then show ?thesis by (simp add: node_get_put_backend [OF env])
    next
      case no: False
      with run l3 [unfolded ta_def] True show ?thesis
        by (simp add: rename_link_def)
    qed
    have wq: "walk ns B (butlast cb) = Some q" using sub2' q(2) by (rule walk_mono)
    have neq: "(q, last cb) \<noteq> ka"
    proof (cases orig)
      case True
      from o1 [OF True] wq have "q = pb0" by (simp add: find_entry_Some)
      moreover from o1 [OF True] have "ns1 kb = None" by simp
      ultimately show ?thesis using c(3) by (auto simp: kb_def)
    next
      case False
      from o2 [OF False] q(1) wq have "ns (q, last cb) = None"
        by (simp add: find_entry_def)
      with ca_ns(2) show ?thesis by auto
    qed
    let ?ns3 = "ns2((q, last cb) \<mapsto> ta)"
    have sub3: "ns2 \<subseteq>\<^sub>m ?ns3" using q(3) by (auto simp: map_le_def)
    have "find_entry ?ns3 B cb = Some (q, ta)"
      using q(1) walk_mono [OF sub3 q(2)] by (simp add: find_entry_Some)
    then have g1: "walk ?ns3 B cb = Some ta" by (rule find_entry_walk)
    have "?ns3 ka = None" using neq by (simp add: ns2_def)
    with c(1) walk_mono [OF sub3 w2] have g2: "walk ?ns3 B ca = None"
      unfolding ka_def by (rule walk_snoc_None)
    have g3: "?ns3 k' = ns k'" if "k' \<noteq> ka" "k' \<noteq> kb \<or> \<not> orig" "k' \<noteq> (q, last cb)" for k'
    proof -
      have "?ns3 k' = ns1 k'" using that(1,3) by (simp add: ns2_def)
      also have "ns1 k' = ns k'"
      proof (cases orig)
        case True
        with that(2) show ?thesis by (simp add: off1)
      next
        case False
        with o2 show ?thesis by simp
      qed
      finally show ?thesis .
    qed
    show ?thesis using fin g1 g2 g3 wq by (simp add: q(4))
  next
    case False
    from r0(4) False eq have e3: "entries (backend st3) = ns2" by (simp add: e2')
    obtain c1 st4 where l4: "vfs_link_internal E st3 B old ta = (c1, st4)"
      by (cases "vfs_link_internal E st3 B old ta")
    have n4: "ns_link B old ta (backend st3) = (c1, backend st4)"
      using link_ns [OF env l4] .
    from relink_either [OF sub2 fa [folded ta_def] e3 n4]
    have e4: "entries (backend st4) = ns2 \<or> entries (backend st4) = ns1"
      and lf4: "link_faults (backend st4) = tl (link_faults (backend st3))"
      using back1 by (simp_all add: defs)
    have e4sub: "entries (backend st4) \<subseteq>\<^sub>m ns"
      using e4 sub1 sub2' by auto
    have r4: "entries (backend st4) = ns1" if nf: "True \<notin> set (tl (link_faults (backend st2)))"
    proof -
      have "link_faults (backend st3) = [] \<or> \<not> hd (link_faults (backend st3))"
        unfolding lf3 using nf by (rule no_true_hd)
      have "ns_link B old ta (backend st3) =
          (ns_reply (backend st3) EOK ta,
           (backend st3)\<lparr>link_faults := tl (link_faults (backend st3)), entries := ns1\<rparr>)"
      proof (rule relink_restores [where rank = rank and ns = ns1 and p = pa])
        show "\<And>d n t. ns1 (d, n) = Some t \<Longrightarrow> rank d < rank t" by (rule acyc1)
        show "find_entry ns1 B (components old) = Some (pa, ta)" by (rule fa [folded ta_def])
        show "entries (backend st3) = ns1((pa, last (components old)) := None)"
          using e3 by (simp add: ns2_def defs)
      qed fact
      with n4 have "backend st4 =
          (backend st3)\<lparr>link_faults := tl (link_faults (backend st3)), entries := ns1\<rparr>" by simp
      then have "entries (backend st4) =
          entries ((backend st3)\<lparr>link_faults := tl (link_faults (backend st3)), entries := ns1\<rparr>)"
        by (rule arg_cong)
      then show ?thesis by simp
    qed
    show ?thesis
    proof (cases orig)
      case no: False
      have fin: "r = rc l" "st' = st4"
        using run l3 [unfolded ta_def] l4 [unfolded ta_def] False no
        by (simp_all add: rename_link_def)
      from o2 [OF no] have n1: "ns1 = ns" by simp
      have "entries (backend st4) k' = ns k'" if "k' \<noteq> ka" for k'
        using e4 that n1 by (auto simp: ns2_def)
      with fin False r4 n1 no show ?thesis by simp
    next
      case yes: True
      obtain c2 st5 where l5: "vfs_link_internal E st4 B new tb = (c2, st5)"
        by (cases "vfs_link_internal E st4 B new tb")
      have n5: "ns_link B new tb (backend st4) = (c2, backend st5)"
        using link_ns [OF env l5] .
      have fin: "r = rc l" "st' = st5"
        using run l3 [unfolded ta_def] l4 [unfolded ta_def] l5 [unfolded tb_def] False yes
        by (simp_all add: rename_link_def)
      from o1 [OF yes] have fb: "find_entry ns B (components new) = Some (pb0, tb)"
        and n1: "ns1 = ns(kb := None)" by (simp_all add: cb_def)
      from relink_either [OF e4sub fb refl n5]
      have e5: "entries (backend st5) = entries (backend st4) \<or>
          entries (backend st5) = (entries (backend st4))(kb \<mapsto> tb)"
        by (simp add: defs)
      have d5: "entries (backend st5) k' = ns k'" if "k' \<noteq> ka" "k' \<noteq> kb" for k'
      proof -
        have "entries (backend st5) k' = entries (backend st4) k'" using e5 that(2) by auto
        also have "\<dots> = ns1 k'" using e4 that(1) by (auto simp: ns2_def)
        also have "\<dots> = ns k'" using that(2) by (rule off1)
        finally show ?thesis .
      qed
      have r5: "entries (backend st5) = ns" if nf: "True \<notin> set (tl (link_faults (backend st2)))"
      proof -
        have e: "entries (backend st4) = ns((pb0, last (components new)) := None)"
          using r4 [OF nf] n1 by (simp add: defs)
        have "True \<notin> set (link_faults (backend st4))"
          unfolding lf4 lf3 using nf by (rule no_true_tl)
        then have "link_faults (backend st4) = [] \<or> \<not> hd (link_faults (backend st4))"
          by (rule no_true_hd)
        then have "ns_link B new tb (backend st4) =
          (ns_reply (backend st4) EOK tb,
           (backend st4)\<lparr>link_faults := tl (link_faults (backend st4)), entries := ns\<rparr>)"
          using acyc fb e by (intro relink_restores [where rank = rank and p = pb0]) auto
        with n5 have "backend st5 =
          (backend st4)\<lparr>link_faults := tl (link_faults (backend st4)), entries := ns\<rparr>" by simp
        then have "entries (backend st5) =
          entries ((backend st4)\<lparr>link_faults := tl (link_faults (backend st4)), entries := ns\<rparr>)"
          by (rule arg_cong)
        then show ?thesis by simp
      qed
      from fin False d5 r5 yes show ?thesis by simp
    qed
  qed
  show "r = EOK \<Longrightarrow>
           walk (entries (backend st')) B (components new) = Some (triplet lra) \<and>
           walk (entries (backend st')) B (components old) = None"
    using main by (simp add: defs)
  show "rank B \<le> rank (fst k)" if ne: "entries (backend st') k \<noteq> ns k"
  proof -
    from main ne have cases: "k = ka \<or> (k = kb \<and> orig) \<or>
        (r = EOK \<and> k = (the (walk ns B (butlast cb)), last cb))"
      by blast
    show ?thesis
    proof (cases "k = ka \<or> (k = kb \<and> orig)")
      case True
      with rka rkb show ?thesis by auto
    next
      case False
      with cases have k: "r = EOK" "k = (the (walk ns B (butlast cb)), last cb)" by blast+
      from main k(1) obtain q where q: "walk ns B (butlast cb) = Some q" by auto
      from walk_rank [where rank = rank, OF acyc q] k(2) q show ?thesis by simp
    qed
  qed
  show "r \<noteq> EOK \<Longrightarrow> True \<notin> set (tl (link_faults (backend st2))) \<Longrightarrow>
           entries (backend st') = ns"
    using main by simp
qed

lemma rename_steps_ns:
  fixes rank :: "vfs_triplet \<Rightarrow> nat"
  assumes env: "fs E = ns_fs (L_UNLINK E) (L_DIRECTORY E)"
    and bits: "ns_flags_ok E"
    and acycO: "\<forall>d n t. entries (backend st) (d, n) = Some t \<longrightarrow> rank d < rank t"
    and run: "rename_steps E st B old new = (r, st')"
  shows "r = EOK \<Longrightarrow>
           \<exists>t. walk (entries (backend st)) B (components old) = Some t \<and>
               walk (entries (backend st')) B (components new) = Some t \<and>
               walk (entries (backend st')) B (components old) = None"
    and "entries (backend st') k \<noteq> entries (backend st) k \<Longrightarrow> rank B \<le> rank (fst k)"
    and "r \<noteq> EOK \<Longrightarrow>
         True \<notin> set (link_faults (backend st)) \<or>
           (r = EIO \<and> True \<notin> set (tl (link_faults (backend st)))) \<Longrightarrow>
         entries (backend st') = entries (backend st)"
proof -
  let ?F = "L_UNLINK E OR L_DISABLE_MOUNTS E"
  define s0 where "s0 = backend st"
  define ns where "ns = entries s0"
  define ca where "ca = components old"
  define cb where "cb = components new"
  note defs = s0_def ns_def ca_def cb_def
  have fu: "?F AND L_UNLINK E \<noteq> 0" "?F AND L_DIRECTORY E = 0"
    using bits by (simp_all add: ns_flags_ok_def)
  have acycO': "\<forall>d n t. ns (d, n) = Some t \<longrightarrow> rank d < rank t"
    using acycO by (simp add: defs)
  then have acyc': "\<And>d n t. ns (d, n) = Some t \<Longrightarrow> rank d < rank t"
    by blast
  obtain n st1 where l1: "vfs_lookup_internal E st (Some B) new ?F = (n, st1)"
    by (cases "vfs_lookup_internal E st (Some B) new ?F")
  have nl1: "ns_lookup (L_UNLINK E) (L_DIRECTORY E) (Some B) new ?F s0 = (n, backend st1)"
    using lookup_ns [OF env l1] by (simp add: s0_def)
  obtain ol st2 where l2: "vfs_lookup_internal E st1 (Some B) old ?F = (ol, st2)"
    by (cases "vfs_lookup_internal E st1 (Some B) old ?F")
  have nl2: "ns_lookup (L_UNLINK E) (L_DIRECTORY E) (Some B) old ?F (backend st1) = (ol, backend st2)"
    using lookup_ns [OF env l2] .
  have main: "(r = EOK \<longrightarrow>
           (\<exists>t. walk ns B ca = Some t \<and>
               walk (entries (backend st')) B cb = Some t \<and>
               walk (entries (backend st')) B ca = None)) \<and>
        (\<forall>k. entries (backend st') k \<noteq> ns k \<longrightarrow> rank B \<le> rank (fst k)) \<and>
        (r \<noteq> EOK \<longrightarrow>
           True \<notin> set (link_faults s0) \<or> (r = EIO \<and> True \<notin> set (tl (link_faults s0))) \<longrightarrow>
           entries (backend st') = ns)"
  proof (cases "find_entry ns B cb")
    case None
    from ns_lookup_unlink_fail [OF fu, of s0 B new] None
    obtain e where e: "e \<noteq> EOK" "e \<noteq> EIO"
      "ns_lookup (L_UNLINK E) (L_DIRECTORY E) (Some B) new ?F s0 = (ns_reply s0 e null_triplet, s0)"
      by (auto simp: defs)
    with nl1 have n: "rc n = e" "backend st1 = s0" by (auto simp: ns_reply_def)
    show ?thesis
    proof (cases "e = ENOENT")
      case False
      with run l1 n e(1) have "r = e" "st' = st1" by (simp_all add: rename_steps_def)
      with n e(1) show ?thesis by (simp add: ns_def)
    next
      case enoent: True
      show ?thesis
      proof (cases "find_entry ns B ca")
        case na: None
        from ns_lookup_unlink_fail [OF fu, of s0 B old] na
        obtain e2 where e2: "e2 \<noteq> EOK"
          "ns_lookup (L_UNLINK E) (L_DIRECTORY E) (Some B) old ?F s0 = (ns_reply s0 e2 null_triplet, s0)"
          by (auto simp: defs)
        with nl2 n(2) have o: "rc ol = e2" "backend st2 = s0" by (auto simp: ns_reply_def)
        with run l1 l2 n e(1) enoent e2(1) have "r = e2" "st' = st2"
          by (simp_all add: rename_steps_def)
        with o e2(1) show ?thesis by (simp add: ns_def)
      next
        case (Some pt)
        obtain pa ta where pt: "pt = (pa, ta)" by (cases pt)
        from ns_lookup_unlink_ok [OF fu, of s0 B old pa ta] Some pt
        have "ns_lookup (L_UNLINK E) (L_DIRECTORY E) (Some B) old ?F s0 =
            (ns_reply s0 EOK ta, s0\<lparr>entries := ns((pa, last ca) := None)\<rparr>)"
          by (simp add: defs)
        with nl2 n(2) have o: "rc ol = EOK" "triplet (lres ol) = ta"
          "backend st2 = s0\<lparr>entries := ns((pa, last ca) := None)\<rparr>"
          by (auto simp: ns_reply_def)
        from run l1 l2 n e(1) enoent o(1)
        have rl: "rename_link E st2 B old new (lres ol) False (lres n) = (r, st')"
          by (simp add: rename_steps_def)
        have og: "if False
               then find_entry ns B (components new) = Some (null_triplet, triplet (lres n)) \<and>
                    ns = ns((null_triplet, last (components new)) := None)
               else ns = ns \<and> find_entry ns B (components new) = None"
          using None by (simp add: cb_def)
        have fa: "find_entry ns B (components old) = Some (pa, triplet (lres ol))"
          using Some pt o(2) by (simp add: ca_def)
        have e2: "entries (backend st2) = ns((pa, last (components old)) := None)"
          using o(3) by (simp add: ca_def)
        have lf: "link_faults (backend st2) = link_faults s0" using o(3) by simp
        note R = rename_link_ns [where rank = rank, OF env acycO' og fa e2 rl]
        have tlf: "True \<notin> set (tl (link_faults s0))"
          if "True \<notin> set (link_faults s0) \<or> (r = EIO \<and> True \<notin> set (tl (link_faults s0)))"
          using that no_true_tl by blast
        show ?thesis
          using R(1) R(2) R(3) R(4) [unfolded lf] tlf
          by (auto simp: ca_def cb_def)
      qed
    qed
  next
    case (Some pbt)
    obtain pb0 tb where pbt: "pbt = (pb0, tb)" by (cases pbt)
    define kb where "kb = (pb0, last cb)"
    define ns1 where "ns1 = ns(kb := None)"
    from Some pbt have fb: "find_entry ns B cb = Some (pb0, tb)" by simp
    from ns_lookup_unlink_ok [OF fu, of s0 B new pb0 tb] fb
    have "ns_lookup (L_UNLINK E) (L_DIRECTORY E) (Some B) new ?F s0 =
        (ns_reply s0 EOK tb, s0\<lparr>entries := ns1\<rparr>)"
      by (simp add: defs ns1_def kb_def)
    with nl1 have n: "rc n = EOK" "triplet (lres n) = tb" "backend st1 = s0\<lparr>entries := ns1\<rparr>"
      by (auto simp: ns_reply_def)
    have sub1: "ns1 \<subseteq>\<^sub>m ns" by (auto simp: ns1_def map_le_def)
    have rkb: "rank B \<le> rank (fst kb)"
    proof -
      from fb have "walk ns B (butlast cb) = Some pb0" by (simp add: find_entry_Some)
      from walk_rank [where rank = rank, OF acyc' this] show ?thesis by (simp add: kb_def)
    qed
    have rst: "ns1(kb \<mapsto> tb) = ns"
    proof -
      from fb have "ns kb = Some tb" by (simp add: find_entry_Some kb_def)
      then show ?thesis by (auto simp: ns1_def fun_eq_iff)
    qed
    show ?thesis
    proof (cases "find_entry ns1 B ca")
      case na: None
      from ns_lookup_unlink_fail [OF fu, of "s0\<lparr>entries := ns1\<rparr>" B old] na
      obtain e2 where e2: "e2 \<noteq> EOK" "e2 \<noteq> EIO"
        "ns_lookup (L_UNLINK E) (L_DIRECTORY E) (Some B) old ?F (s0\<lparr>entries := ns1\<rparr>) =
           (ns_reply (s0\<lparr>entries := ns1\<rparr>) e2 null_triplet, s0\<lparr>entries := ns1\<rparr>)"
        by (auto simp: defs)
      with nl2 n(3) have o: "rc ol = e2" "backend st2 = s0\<lparr>entries := ns1\<rparr>"
        by (auto simp: ns_reply_def)
      obtain c st3 where l3: "vfs_link_internal E st2 B new tb = (c, st3)"
        by (cases "vfs_link_internal E st2 B new tb")
      have n3: "ns_link B new tb (backend st2) = (c, backend st3)"
        using link_ns [OF env l3] .
      from run l1 l2 l3 n o e2(1) have fin: "r = e2" "st' = st3"
        by (simp_all add: rename_steps_def)
      have e: "entries (backend st2) = ns1" using o(2) by simp
      from relink_either [OF sub1 fb [unfolded cb_def] e n3]
      have e3: "entries (backend st3) = ns1 \<or> entries (backend st3) = ns"
        using rst by (simp add: kb_def cb_def)
      have d: "entries (backend st3) k = ns k" if "k \<noteq> kb" for k
        using e3 that by (auto simp: ns1_def)
      have rest: "entries (backend st3) = ns" if nf: "True \<notin> set (link_faults s0)"
      proof -
        have "link_faults (backend st2) = [] \<or> \<not> hd (link_faults (backend st2))"
          using nf o(2) no_true_hd by simp
        then have "ns_link B new tb (backend st2) =
          (ns_reply (backend st2) EOK tb,
           (backend st2)\<lparr>link_faults := tl (link_faults (backend st2)), entries := ns\<rparr>)"
          using acyc' fb e
          by (intro relink_restores [where rank = rank and p = pb0]) (auto simp: ns1_def kb_def cb_def)
        with n3 have "backend st3 =
          (backend st2)\<lparr>link_faults := tl (link_faults (backend st2)), entries := ns\<rparr>" by simp
        then have "entries (backend st3) =
          entries ((backend st2)\<lparr>link_faults := tl (link_faults (backend st2)), entries := ns\<rparr>)"
          by (rule arg_cong)
        then show ?thesis by simp
      qed
      have d': "rank B \<le> rank (fst k)" if "entries (backend st3) k \<noteq> ns k" for k
      proof (cases "k = kb")
        case True
        with rkb show ?thesis by simp
      next
        case False
        with d that show ?thesis by simp
      qed
      show ?thesis
        using fin e2(1,2) d' rest by blast
    next
      case (Some pt)
      obtain pa ta where pt: "pt = (pa, ta)" by (cases pt)
      from ns_lookup_unlink_ok [OF fu, of "s0\<lparr>entries := ns1\<rparr>" B old pa ta] Some pt
      have "ns_lookup (L_UNLINK E) (L_DIRECTORY E) (Some B) old ?F (s0\<lparr>entries := ns1\<rparr>) =
          (ns_reply (s0\<lparr>entries := ns1\<rparr>) EOK ta, s0\<lparr>entries := ns1((pa, last ca) := None)\<rparr>)"
        by (simp add: defs)
      with nl2 n(3) have o: "rc ol = EOK" "triplet (lres ol) = ta"
        "backend st2 = s0\<lparr>entries := ns1((pa, last ca) := None)\<rparr>"
        by (auto simp: ns_reply_def)
      from run l1 l2 n o(1)
      have rl: "rename_link E st2 B old new (lres ol) True (lres n) = (r, st')"
        by (simp add: rename_steps_def)
      have og: "if True
             then find_entry ns B (components new) = Some (pb0, triplet (lres n)) \<and>
                  ns1 = ns((pb0, last (components new)) := None)
             else ns1 = ns \<and> find_entry ns B (components new) = None"
        using fb n(2) by (simp add: cb_def ns1_def kb_def)
      have fa: "find_entry ns1 B (components old) = Some (pa, triplet (lres ol))"
        using Some pt o(2) by (simp add: ca_def)
      have e2: "entries (backend st2) = ns1((pa, last (components old)) := None)"
        using o(3) by (simp add: ca_def)
      have lf: "link_faults (backend st2) = link_faults s0" using o(3) by simp
      note R = rename_link_ns [where rank = rank, OF env acycO' og fa e2 rl]
      have tlf: "True \<notin> set (tl (link_faults s0))"
        if "True \<notin> set (link_faults s0) \<or> (r = EIO \<and> True \<notin> set (tl (link_faults s0)))"
        using that no_true_tl by blast
      show ?thesis
        using R(1) R(2) R(3) R(4) [unfolded lf] tlf
        by (auto simp: ca_def cb_def)
    qed
  qed
  show "r = EOK \<Longrightarrow>
           \<exists>t. walk (entries (backend st)) B (components old) = Some t \<and>
               walk (entries (backend st')) B (components new) = Some t \<and>
               walk (entries (backend st')) B (components old) = None"
    using main by (simp add: defs)
  show "entries (backend st') k \<noteq> entries (backend st) k \<Longrightarrow> rank B \<le> rank (fst k)"
    using main unfolding defs by blast
  show "r \<noteq> EOK \<Longrightarrow>
         True \<notin> set (link_faults (backend st)) \<or>
           (r = EIO \<and> True \<notin> set (tl (link_faults (backend st)))) \<Longrightarrow>
         entries (backend st') = entries (backend st)"
    using main by (simp add: defs)
qed

subsection \<open>Atomicity of rename\<close>

text \<open>A broker over the namespace server with the flag constants as distinct bits, three
  nodes of one file system, and the server and broker states of the scenarios.\<close>

definition ns_env :: "ns_state vfs_env" where
  "ns_env = \<lparr>WALK_MAY_CREATE = 1, WALK_MUST_CREATE = 2, WALK_REGULAR = 4, WALK_DIRECTORY = 8,
     WALK_ALL_FLAGS = 15, MODE_READ = 1, MODE_WRITE = 2, MODE_APPEND = 4,
     L_FILE = 1, L_DIRECTORY = 2, L_CREATE = 4, L_EXCLUSIVE = 8, L_UNLINK = 16, L_MP = 32,
     L_DISABLE_MOUNTS = 64, MAX_OPEN_FILES = 4,
     fs = ns_fs 16 2,
     fs_handle_to_info =
       (\<lambda>h. Some \<lparr>concurrent_read_write = False, write_retains_size = False\<rparr>)\<rparr>"

definition t_root :: vfs_triplet where "t_root = \<lparr>fs_handle = 1, service_id = 7, index = 0\<rparr>"
definition t_a :: vfs_triplet where "t_a = \<lparr>fs_handle = 1, service_id = 7, index = 3\<rparr>"
definition t_b :: vfs_triplet where "t_b = \<lparr>fs_handle = 1, service_id = 7, index = 4\<rparr>"

definition ns_server :: "(vfs_triplet \<times> string \<rightharpoonup> vfs_triplet) \<Rightarrow> bool list \<Rightarrow> ns_state" where
  "ns_server es lf = \<lparr>entries = es,
     kinds = (\<lambda>t. if t = t_root then VFS_NODE_DIRECTORY else VFS_NODE_FILE), link_faults = lf\<rparr>"

definition ns_broker :: "ns_state \<Rightarrow> out_request list \<Rightarrow> ns_state vfs_state" where
  "ns_broker s tr = \<lparr>fds = Map.empty, files = Map.empty, next_file = 0,
     nodes = [(t_root, \<lparr>refcnt = 1, node_type = VFS_NODE_DIRECTORY, node_size = 0\<rparr>)],
     root = Some t_root, mtab_list = [], backend = s, trace = tr\<rparr>"

lemma sp_ab: "shared_path ''/a'' ''/b'' = Some 0"
  by (simp add: shared_path_def cstr_at_def first_diff.simps)

lemma comps_ab: "components ''/a'' = [''a'']" "components ''/b'' = [''b'']"
  by (simp_all add: components_def)

lemma ns_env_consts:
  "L_UNLINK ns_env = 16" "L_DISABLE_MOUNTS ns_env = 64" "L_DIRECTORY ns_env = 2"
  "fs ns_env = ns_fs 16 2"
  by (simp_all add: ns_env_def)

lemma cex_run:
  "vfs_rename_internal ns_env (ns_broker (ns_server [(t_root, ''a'') \<mapsto> t_a] [True, True]) []) t_root ''/a'' ''/b'' =
     Some (EIO, ns_broker (ns_server Map.empty [])
       [OUT_LOOKUP (Some t_root) ''/b'' 80, OUT_LOOKUP (Some t_root) ''/a'' 80,
        OUT_LINK t_root ''/b'' t_a, OUT_LINK t_root ''/a'' t_a])"
  by (simp add: vfs_rename_internal_def sp_ab cstr_at_def rename_steps_def rename_link_def
      vfs_lookup_internal_def vfs_link_internal_def request_def ns_env_consts
      ns_lookup_def ns_link_def comps_ab ns_reply_def ns_broker_def ns_server_def Let_def)

text \<open>
  C1, amended. Over the namespace server, for every base triplet and every pair of canonical
  paths \<open>a\<close> and \<open>b\<close>, on a namespace without cycles, \<^verbatim>\<open>vfs_rename_internal\<close> returns. If it
  returns \<^verbatim>\<open>EOK\<close> then \<open>a\<close> resolved to a triplet before the call, \<open>b\<close> resolves to that
  triplet after it and \<open>a\<close> no longer resolves. If it fails, the directory entries after the
  call are those before it, provided that the server refuses no link request at all, or
  refuses only the first one (the \<^verbatim>\<open>LINK\<close> of step 3, which then fails with the server's
  error) and none of the compensating ones. The return values of the compensating
  \<^verbatim>\<open>vfs_link_internal\<close> calls are not inspected by the code, so when the server refuses
  one of them the entry it was to put back stays missing.
\<close>

theorem rename_atomic:
  fixes rank :: "vfs_triplet \<Rightarrow> nat"
  assumes env: "fs E = ns_fs (L_UNLINK E) (L_DIRECTORY E)"
    and bits: "ns_flags_ok E"
    and acycO: "\<forall>d n t. entries (backend st) (d, n) = Some t \<longrightarrow> rank d < rank t"
    and ca: "canonical a" and cb: "canonical b"
  shows "\<exists>r st'. vfs_rename_internal E st base a b = Some (r, st') \<and>
      (r = EOK \<longrightarrow>
         (\<exists>t. resolve (backend st) base a = Some t \<and> resolve (backend st') base b = Some t) \<and>
         resolve (backend st') base a = None) \<and>
      (r \<noteq> EOK \<and>
       (True \<notin> set (link_faults (backend st)) \<or>
        (r = EIO \<and> True \<notin> set (tl (link_faults (backend st))))) \<longrightarrow>
         entries (backend st') = entries (backend st))"
proof -
  have acyc: "\<And>d n t. entries (backend st) (d, n) = Some t \<Longrightarrow> rank d < rank t"
    using acycO by blast
  from shared_path_canonical [OF ca cb]
  consider (same) "a = b" "shared_path a b = Some (length a)"
    | (diff) n where "shared_path a b = Some n" "n < length a" "n < length b"
        "a ! n = CHR ''/''" "b ! n = CHR ''/''" "take n a = take n b"
    by blast
  then show ?thesis
  proof cases
    case same
    then have "vfs_rename_internal E st base a b = Some (EINVAL, st)"
      by (simp add: vfs_rename_internal_def cstr_at_def)
    then show ?thesis by simp
  next
    case diff
    have at: "cstr_at a n = CHR ''/''" "cstr_at b n = CHR ''/''"
      using diff by (simp_all add: cstr_at_def)
    show ?thesis
    proof (cases "n = 0")
      case True
      obtain r st' where run: "rename_steps E st base a b = (r, st')"
        by (cases "rename_steps E st base a b")
      have v: "vfs_rename_internal E st base a b = Some (r, st')"
        using diff(1) at True run by (simp add: vfs_rename_internal_def)
      note R = rename_steps_ns [where rank = rank, OF env bits acycO run]
      show ?thesis
        using v R(1) R(3) by (auto simp: resolve_def)
    next
      case False
      let ?pre = "components (take n a)"
      have spa: "components a = ?pre @ components (drop n a)"
        using diff(2,4) by (rule components_split)
      have spb: "components b = ?pre @ components (drop n b)"
        using components_split [OF diff(3,5)] diff(6) by simp
      obtain bl st1 where l0: "vfs_lookup_internal E st (Some base) (take n a) (L_DIRECTORY E) = (bl, st1)"
        by (cases "vfs_lookup_internal E st (Some base) (take n a) (L_DIRECTORY E)")
      have du: "L_DIRECTORY E AND L_UNLINK E = 0" using bits by (simp add: ns_flags_ok_def)
      from ns_lookup_plain [OF du, of "L_DIRECTORY E" base "take n a" "backend st"] lookup_ns [OF env l0]
      have b1: "backend st1 = backend st" and nio: "rc bl \<noteq> EIO"
        and wpre: "rc bl = EOK \<Longrightarrow> walk (entries (backend st)) base ?pre = Some (triplet (lres bl))"
        by simp_all
      show ?thesis
      proof (cases "rc bl = EOK")
        case bad: False
        have "vfs_rename_internal E st base a b = Some (rc bl, st1)"
          using diff(1) at False l0 bad by (simp add: vfs_rename_internal_def)
        with bad b1 show ?thesis by simp
      next
        case ok: True
        let ?B = "triplet (lres bl)"
        obtain r st' where run: "rename_steps E st1 ?B (drop n a) (drop n b) = (r, st')"
          by (cases "rename_steps E st1 ?B (drop n a) (drop n b)")
        have v: "vfs_rename_internal E st base a b = Some (r, st')"
          using diff(1) at False l0 ok run by (simp add: vfs_rename_internal_def)
        have acyc1: "\<forall>d n t. entries (backend st1) (d, n) = Some t \<longrightarrow> rank d < rank t"
          using acycO b1 by simp
        note R = rename_steps_ns [where rank = rank, OF env bits acyc1 run, unfolded b1]
        have wp: "walk (entries (backend st)) base ?pre = Some ?B" using wpre ok by simp
        have wp': "walk (entries (backend st')) base ?pre = Some ?B"
        proof (rule walk_change_above [where rank = rank and ns = "entries (backend st)"])
          show "\<And>d n t. entries (backend st) (d, n) = Some t \<Longrightarrow> rank d < rank t" by (rule acyc)
          show "walk (entries (backend st)) base ?pre = Some ?B" by (rule wp)
          show "\<And>k. entries (backend st') k \<noteq> entries (backend st) k \<Longrightarrow> rank ?B \<le> rank (fst k)"
            by (rule R(2))
        qed
        show ?thesis
          using v R(1) R(3) wp wp' by (auto simp: resolve_def spa spb walk_append)
      qed
    qed
  qed
qed

text \<open>
  C1 as stated fails when a compensating link is refused: with \<open>/a\<close> present, \<open>/b\<close> absent
  and a server that refuses the next two link requests, the rename of \<open>/a\<close> to \<open>/b\<close> unlinks
  \<open>/a\<close>, fails to link it at \<open>/b\<close>, fails to link it back at \<open>/a\<close>, and returns the error
  with \<open>/a\<close> no longer resolving.
\<close>

theorem rename_relink_counterexample:
  "canonical ''/a'' \<and> canonical ''/b'' \<and>
   resolve (ns_server [(t_root, ''a'') \<mapsto> t_a] [True, True]) t_root ''/a'' = Some t_a \<and>
   vfs_rename_internal ns_env (ns_broker (ns_server [(t_root, ''a'') \<mapsto> t_a] [True, True]) [])
       t_root ''/a'' ''/b'' =
     Some (EIO, ns_broker (ns_server Map.empty [])
       [OUT_LOOKUP (Some t_root) ''/b'' 80, OUT_LOOKUP (Some t_root) ''/a'' 80,
        OUT_LINK t_root ''/b'' t_a, OUT_LINK t_root ''/a'' t_a]) \<and>
   resolve (ns_server Map.empty []) t_root ''/a'' = None"
  using cex_run by (simp add: canonical_def resolve_def comps_ab ns_server_def)

text \<open>The amended statement at work: a rename over an existing target succeeds and
  moves the node, and a rename of a missing source over an existing target fails and puts
  the target back.\<close>

lemma ok_run:
  "\<exists>st'. vfs_rename_internal ns_env
      (ns_broker (ns_server [(t_root, ''a'') \<mapsto> t_a, (t_root, ''b'') \<mapsto> t_b] []) [])
      t_root ''/a'' ''/b'' = Some (EOK, st')"
  by (simp add: vfs_rename_internal_def sp_ab cstr_at_def rename_steps_def rename_link_def
      vfs_lookup_internal_def vfs_link_internal_def request_def ns_env_consts
      ns_lookup_def ns_link_def comps_ab ns_reply_def ns_broker_def ns_server_def Let_def
      vfs_node_get_def vfs_node_put_def t_root_def t_a_def t_b_def)

lemma enoent_run:
  "\<exists>st'. vfs_rename_internal ns_env
      (ns_broker (ns_server [(t_root, ''b'') \<mapsto> t_b] []) [])
      t_root ''/a'' ''/b'' = Some (ENOENT, st')"
  by (simp add: vfs_rename_internal_def sp_ab cstr_at_def rename_steps_def rename_link_def
      vfs_lookup_internal_def vfs_link_internal_def request_def ns_env_consts
      ns_lookup_def ns_link_def comps_ab ns_reply_def ns_broker_def ns_server_def Let_def)

theorem rename_atomic_witness:
  "fs ns_env = ns_fs (L_UNLINK ns_env) (L_DIRECTORY ns_env) \<and> ns_flags_ok ns_env \<and>
   canonical ''/a'' \<and> canonical ''/b'' \<and>
   resolve (ns_server [(t_root, ''a'') \<mapsto> t_a, (t_root, ''b'') \<mapsto> t_b] []) t_root ''/a'' = Some t_a \<and>
   (\<exists>st'. vfs_rename_internal ns_env
      (ns_broker (ns_server [(t_root, ''a'') \<mapsto> t_a, (t_root, ''b'') \<mapsto> t_b] []) [])
      t_root ''/a'' ''/b'' = Some (EOK, st') \<and>
      resolve (backend st') t_root ''/a'' = None \<and>
      resolve (backend st') t_root ''/b'' = Some t_a) \<and>
   (\<exists>st'. vfs_rename_internal ns_env
      (ns_broker (ns_server [(t_root, ''b'') \<mapsto> t_b] []) [])
      t_root ''/a'' ''/b'' = Some (ENOENT, st') \<and>
      entries (backend st') = [(t_root, ''b'') \<mapsto> t_b])"
proof -
  let ?s1 = "ns_broker (ns_server [(t_root, ''a'') \<mapsto> t_a, (t_root, ''b'') \<mapsto> t_b] []) []"
  let ?s2 = "ns_broker (ns_server [(t_root, ''b'') \<mapsto> t_b] []) []"
  have env: "fs ns_env = ns_fs (L_UNLINK ns_env) (L_DIRECTORY ns_env)"
    by (simp add: ns_env_consts)
  have bits: "ns_flags_ok ns_env" by (simp add: ns_flags_ok_def ns_env_consts)
  have ca: "canonical ''/a''" and cb: "canonical ''/b''" by (simp_all add: canonical_def)
  have a1: "\<forall>d n t. entries (backend ?s1) (d, n) = Some t \<longrightarrow> index d < index t"
    by (auto simp: ns_broker_def ns_server_def t_root_def t_a_def t_b_def split: if_splits)
  have a2: "\<forall>d n t. entries (backend ?s2) (d, n) = Some t \<longrightarrow> index d < index t"
    by (auto simp: ns_broker_def ns_server_def t_root_def t_b_def split: if_splits)
  have pre: "resolve (ns_server [(t_root, ''a'') \<mapsto> t_a, (t_root, ''b'') \<mapsto> t_b] []) t_root ''/a'' = Some t_a"
    by (simp add: resolve_def comps_ab ns_server_def)
  have pre': "resolve (backend ?s1) t_root ''/a'' = Some t_a"
    using pre by (simp add: ns_broker_def)
  have nf: "True \<notin> set (link_faults (backend ?s2))" by (simp add: ns_broker_def ns_server_def)
  have e2: "entries (backend ?s2) = [(t_root, ''b'') \<mapsto> t_b]" by (simp add: ns_broker_def ns_server_def)
  from rename_atomic [where rank = index, OF env bits a1 ca cb, of t_root] ok_run pre'
  have 1: "\<exists>st'. vfs_rename_internal ns_env ?s1 t_root ''/a'' ''/b'' = Some (EOK, st') \<and>
      resolve (backend st') t_root ''/a'' = None \<and>
      resolve (backend st') t_root ''/b'' = Some t_a"
    by fastforce
  from rename_atomic [where rank = index, OF env bits a2 ca cb, of t_root] enoent_run nf e2
  have 2: "\<exists>st'. vfs_rename_internal ns_env ?s2 t_root ''/a'' ''/b'' = Some (ENOENT, st') \<and>
      entries (backend st') = [(t_root, ''b'') \<mapsto> t_b]"
    by fastforce
  from env bits ca cb pre 1 2 show ?thesis by blast
qed

section \<open>The assertion in the read and write path\<close>

subsection \<open>The handlers of the descriptors\<close>










subsection \<open>The states that a client reaches\<close>


subsection \<open>References to nodes and open bits\<close>

text \<open>What matters of a state: for every slot of the descriptor table the node of its open
  file and whether the file is open for writing, and for every cached node its reference
  count and its type. \<open>refs\<close> are the slots whose files are on a node. \<open>views_ok\<close> says that
  every node has at least as many references as slots on it and references \<open>h\<close> that the
  running handler holds itself, and that no slot open for writing is on a cached
  directory.\<close>

type_synonym slot_view = "int \<Rightarrow> (vfs_triplet option \<times> bool) option"
type_synonym node_view = "vfs_triplet \<Rightarrow> (nat \<times> vfs_node_type) option"

definition refs :: "slot_view \<Rightarrow> vfs_triplet \<Rightarrow> int set" where
  "refs fv t = {fd. \<exists>w. fv fd = Some (Some t, w)}"

definition rcv :: "node_view \<Rightarrow> vfs_triplet \<Rightarrow> nat" where
  "rcv nv t = (case nv t of None \<Rightarrow> 0 | Some (c, ty) \<Rightarrow> c)"

definition dirw :: "slot_view \<Rightarrow> node_view \<Rightarrow> bool" where
  "dirw fv nv = (\<forall>fd t c. fv fd = Some (Some t, True) \<longrightarrow> nv t \<noteq> Some (c, VFS_NODE_DIRECTORY))"

definition views_ok :: "(vfs_triplet \<Rightarrow> nat) \<Rightarrow> slot_view \<Rightarrow> node_view \<Rightarrow> bool" where
  "views_ok h fv nv = (finite (dom fv) \<and> (\<forall>t. card (refs fv t) + h t \<le> rcv nv t) \<and> dirw fv nv)"

definition nv_get :: "node_view \<Rightarrow> vfs_triplet \<Rightarrow> vfs_node_type \<Rightarrow> node_view" where
  "nv_get nv t ty0 = nv(t \<mapsto> (case nv t of None \<Rightarrow> (1, ty0) | Some (c, ty) \<Rightarrow> (Suc c, ty)))"

definition nv_put :: "node_view \<Rightarrow> vfs_triplet \<Rightarrow> node_view" where
  "nv_put nv t =
     (case nv t of
        None \<Rightarrow> nv
      | Some (c, ty) \<Rightarrow> if c \<le> 1 then nv(t := None) else nv(t \<mapsto> (c - 1, ty)))"

definition fview :: "'b vfs_state \<Rightarrow> slot_view" where
  "fview st fd =
     (case fds st fd of
        None \<Rightarrow> None
      | Some a \<Rightarrow> map_option (\<lambda>f. (node f, open_write f)) (files st a))"

definition nview :: "'b vfs_state \<Rightarrow> node_view" where
  "nview st t = map_option (\<lambda>n. (refcnt n, node_type n)) (map_of (nodes st) t)"

definition held_ok :: "(vfs_triplet \<Rightarrow> nat) \<Rightarrow> 'b vfs_state \<Rightarrow> bool" where
  "held_ok h st = (views_ok h (fview st) (nview st) \<and> (\<forall>fd a. fds st fd = Some a \<longrightarrow> a < next_file st))"
















lemma held_ok_view:
  assumes "fview st' = fview st" and "nview st' = nview st"
    and "fds st' = fds st" and "next_file st' = next_file st"
  shows "held_ok h st' = held_ok h st"
  using assms by (simp add: held_ok_def)

lemma nview_upd [simp]:
  "nview (st\<lparr>fds := x\<rparr>) = nview st" "nview (st\<lparr>files := y\<rparr>) = nview st"
  "nview (st\<lparr>next_file := z\<rparr>) = nview st"
  by (simp_all add: nview_def fun_eq_iff)

lemma fview_upd [simp]:
  "fview (st\<lparr>nodes := x\<rparr>) = fview st" "fview (st\<lparr>next_file := z\<rparr>) = fview st"
  by (simp_all add: fview_def fun_eq_iff split: option.splits)

lemma request_next [simp]: "next_file (snd (request E st req)) = next_file st"
  by (simp add: request_def split_beta)

lemma request_view [simp]:
  "fview (snd (request E st req)) = fview st" "nview (snd (request E st req)) = nview st"
  by (simp_all add: fview_def nview_def fun_eq_iff split: option.splits)

lemma request_held [simp]: "held_ok h (snd (request E st req)) = held_ok h st"
  by (rule held_ok_view) simp_all

lemma vfs_file_put_view [simp]:
  "fview (vfs_file_put st a) = fview st" "nview (vfs_file_put st a) = nview st"
  "next_file (vfs_file_put st a) = next_file st"
  by (auto simp: fview_def nview_def fun_eq_iff vfs_file_put_def split: option.splits)

lemma vfs_file_put_held [simp]: "held_ok h (vfs_file_put st a) = held_ok h st"
  by (rule held_ok_view) simp_all

lemma put_parent_held [simp]: "held_ok h (put_parent st p) = held_ok h st"
  by (simp add: put_parent_def split: option.splits)

lemma store_file_next [simp]: "next_file (store_file st a f) = next_file st"
  by (simp add: store_file_def)

lemma store_file_nview [simp]: "nview (store_file st a f) = nview st"
  by (simp add: nview_def fun_eq_iff)




lemma vfs_node_get_view [simp]:
  "fview (snd (vfs_node_get st lr)) = fview st"
  "next_file (snd (vfs_node_get st lr)) = next_file st"
  "nview (snd (vfs_node_get st lr)) = nv_get (nview st) (triplet lr) (lr_type lr)"
  by (auto simp: fview_def nview_def nv_get_def fun_eq_iff vfs_node_get_def AList.update_conv'
      split: option.splits)


lemma vfs_node_put_view [simp]:
  "fview (vfs_node_put E st t) = fview st"
  "fds (vfs_node_put E st t) = fds st"
  "files (vfs_node_put E st t) = files st"
  "next_file (vfs_node_put E st t) = next_file st"
  "nview (vfs_node_put E st t) = nv_put (nview st) t"
  by (auto simp: fview_def nview_def nv_put_def fun_eq_iff vfs_node_put_def AList.update_conv'
      AList.delete_conv' split: option.splits)











subsection \<open>Every handler keeps the references and the open bits in order\<close>










lemma held_upd_back [simp]: "(h(t := Suc (h t)))(t := h t) = h"
  by (simp add: fun_eq_iff)
























end
